theory Spec2Isabelle
  imports Complex_Main "HOL-Library.Multiset"
begin

section \<open>JavaScript numbers\<close>

text \<open>
  A JavaScript number is modelled as a real number or one of the three special values
  of the IEEE arithmetic that the ranking code can produce: NaN (from 0/0) and the two
  infinities (from x/0 and from Math.log(0)).  Rounding is not modelled: finite results
  are exact reals.  Zero carries no sign; a division of a non-zero number by zero yields
  the infinity with the sign of the numerator, as for the divisor +0, which is the only
  zero divisor the code can build (sizes, lengths and counts).
\<close>

datatype jsnum = NaN | NInf | Fin real | PInf

fun jneg :: "jsnum \<Rightarrow> jsnum" where
  "jneg NaN = NaN"
| "jneg NInf = PInf"
| "jneg PInf = NInf"
| "jneg (Fin a) = Fin (- a)"

fun jadd :: "jsnum \<Rightarrow> jsnum \<Rightarrow> jsnum" where
  "jadd (Fin a) (Fin b) = Fin (a + b)"
| "jadd NaN _ = NaN"
| "jadd _ NaN = NaN"
| "jadd PInf NInf = NaN"
| "jadd NInf PInf = NaN"
| "jadd PInf _ = PInf"
| "jadd _ PInf = PInf"
| "jadd NInf _ = NInf"
| "jadd _ NInf = NInf"

definition jsub :: "jsnum \<Rightarrow> jsnum \<Rightarrow> jsnum" where
  "jsub a b = jadd a (jneg b)"

fun jmul :: "jsnum \<Rightarrow> jsnum \<Rightarrow> jsnum" where
  "jmul (Fin a) (Fin b) = Fin (a * b)"
| "jmul NaN _ = NaN"
| "jmul _ NaN = NaN"
| "jmul (Fin a) y = (if a = 0 then NaN else if 0 < a then y else jneg y)"
| "jmul x (Fin b) = (if b = 0 then NaN else if 0 < b then x else jneg x)"
| "jmul PInf PInf = PInf"
| "jmul NInf NInf = PInf"
| "jmul PInf NInf = NInf"
| "jmul NInf PInf = NInf"

fun jdiv :: "jsnum \<Rightarrow> jsnum \<Rightarrow> jsnum" where
  "jdiv (Fin a) (Fin b) =
     (if b = 0 then (if a = 0 then NaN else if 0 < a then PInf else NInf)
      else Fin (a / b))"
| "jdiv NaN _ = NaN"
| "jdiv _ NaN = NaN"
| "jdiv (Fin a) _ = Fin 0"
| "jdiv x (Fin b) = (if 0 \<le> b then x else jneg x)"
| "jdiv PInf PInf = NaN"
| "jdiv PInf NInf = NaN"
| "jdiv NInf PInf = NaN"
| "jdiv NInf NInf = NaN"

text \<open>
  Math.log: the natural logarithm.  It has no code equation, so that evaluation leaves
  a logarithm as it stands.
\<close>

definition mathLog :: "real \<Rightarrow> real" where
  [code del]: "mathLog x = ln x"

fun jlog :: "jsnum \<Rightarrow> jsnum" where
  "jlog NaN = NaN"
| "jlog NInf = NaN"
| "jlog PInf = PInf"
| "jlog (Fin a) = (if a < 0 then NaN else if a = 0 then NInf else Fin (mathLog a))"

text \<open>The comparison \<open>a > b\<close>: false as soon as one side is NaN.\<close>

fun jgt :: "jsnum \<Rightarrow> jsnum \<Rightarrow> bool" where
  "jgt (Fin a) (Fin b) = (b < a)"
| "jgt NaN _ = False"
| "jgt _ NaN = False"
| "jgt PInf PInf = False"
| "jgt PInf _ = True"
| "jgt _ PInf = False"
| "jgt NInf _ = False"
| "jgt _ NInf = True"

text \<open>The comparison \<open>a <= b\<close>: false as soon as one side is NaN.\<close>

fun jle :: "jsnum \<Rightarrow> jsnum \<Rightarrow> bool" where
  "jle (Fin a) (Fin b) = (a \<le> b)"
| "jle NaN _ = False"
| "jle _ NaN = False"
| "jle NInf _ = True"
| "jle _ PInf = True"
| "jle PInf _ = False"
| "jle _ NInf = False"

section \<open>JavaScript strings\<close>

text \<open>
  A string is a list of code units.  The model covers the code units below 256 (the
  Latin-1 range), where \<open>toLowerCase\<close> works unit by unit and keeps the length.
  The white space of \<open>trim\<close> and of the regular expression \<open>\s\<close> in that range is
  TAB, LF, VT, FF, CR, SPACE and NBSP (the code units 9 to 13, 32 and 160).
\<close>

definition isWhiteSpace :: "char \<Rightarrow> bool" where
  "isWhiteSpace c = ((of_char c :: nat) \<in> {9, 10, 11, 12, 13, 32, 160})"

definition toLowerChar :: "char \<Rightarrow> char" where
  "toLowerChar c =
     (let n = (of_char c :: nat)
      in if (65 \<le> n \<and> n \<le> 90) \<or> (192 \<le> n \<and> n \<le> 222 \<and> n \<noteq> 215)
         then char_of (n + 32) else c)"

definition toLowerCase :: "string \<Rightarrow> string" where
  "toLowerCase s = map toLowerChar s"

definition trim :: "string \<Rightarrow> string" where
  "trim s = rev (dropWhile isWhiteSpace (rev (dropWhile isWhiteSpace s)))"

text \<open>
  \<open>s.split(/\s+/)\<close>: the pieces of \<open>s\<close> between the maximal runs of white space.  A
  leading or trailing run leaves an empty piece at that end, and the empty string
  splits into one empty piece.
\<close>

function splitWs :: "string \<Rightarrow> string list" where
  "splitWs s =
     (case dropWhile (\<lambda>c. \<not> isWhiteSpace c) s of
        [] \<Rightarrow> [s]
      | c # rest \<Rightarrow>
          takeWhile (\<lambda>c. \<not> isWhiteSpace c) s # splitWs (dropWhile isWhiteSpace rest))"
  by pat_completeness auto

lemma splitWs_shorter:
  assumes "dropWhile (\<lambda>c. \<not> isWhiteSpace c) s = c # rest"
  shows "length (dropWhile isWhiteSpace rest) < length s"
proof -
  have "length (dropWhile isWhiteSpace rest) \<le> length rest"
    by (rule length_dropWhile_le)
  also have "length rest < length (dropWhile (\<lambda>c. \<not> isWhiteSpace c) s)"
    using assms by simp
  also have "\<dots> \<le> length s"
    by (rule length_dropWhile_le)
  finally show ?thesis .
qed

termination splitWs
  by (relation "measure length") (auto intro: splitWs_shorter)

declare splitWs.simps [simp del]

text \<open>\<open>ts.join(" ")\<close>\<close>

fun joinSp :: "string list \<Rightarrow> string" where
  "joinSp [] = []"
| "joinSp [t] = t"
| "joinSp (t # u # ts) = t @ CHR '' '' # joinSp (u # ts)"

text \<open>
  \<open>s.indexOf(t, pos)\<close>: the least index from \<open>pos\<close> on at which \<open>t\<close> occurs in
  \<open>s\<close>; \<open>None\<close> stands for the result -1.  \<open>findFrom\<close> walks the rest of the string,
  \<open>k\<close> being the index of its first unit.
\<close>

fun findFrom :: "string \<Rightarrow> string \<Rightarrow> nat \<Rightarrow> nat option" where
  "findFrom [] t k = (if t = [] then Some k else None)"
| "findFrom (c # cs) t k =
     (if take (length t) (c # cs) = t then Some k else findFrom cs t (Suc k))"

definition indexOf :: "string \<Rightarrow> string \<Rightarrow> nat \<Rightarrow> nat option" where
  "indexOf s t pos = findFrom (drop pos s) t (min pos (length s))"

definition includes_str :: "string \<Rightarrow> string \<Rightarrow> bool" where
  "includes_str s t = (indexOf s t 0 \<noteq> None)"

text \<open>
  \<open>s.split(sep).length\<close> for a string separator: one more than the number of
  occurrences of \<open>sep\<close> found from left to right without overlap; an empty separator
  splits \<open>s\<close> into its code units.  \<open>countFrom\<close> walks the string, its last argument
  being the number of units still covered by the occurrence found last.
\<close>

fun countFrom :: "string \<Rightarrow> string \<Rightarrow> nat \<Rightarrow> nat" where
  "countFrom [] sep k = 0"
| "countFrom (c # cs) sep (Suc k) = countFrom cs sep k"
| "countFrom (c # cs) sep 0 =
     (if take (length sep) (c # cs) = sep
      then Suc (countFrom cs sep (length sep - 1))
      else countFrom cs sep 0)"

definition splitLength :: "string \<Rightarrow> string \<Rightarrow> nat" where
  "splitLength s sep = (if sep = [] then length s else Suc (countFrom s sep 0))"

section \<open>JavaScript sets and arrays\<close>

text \<open>
  A \<open>Set<string>\<close> is the list of its members in insertion order, without repetition.
  \<open>newSet\<close> is the constructor from an array, \<open>setAdd\<close> is \<open>add\<close>.
\<close>

definition setAdd :: "'a list \<Rightarrow> 'a \<Rightarrow> 'a list" where
  "setAdd s x = (if x \<in> set s then s else s @ [x])"

definition newSet :: "'a list \<Rightarrow> 'a list" where
  "newSet xs = foldl setAdd [] xs"

text \<open>
  \<open>xs.slice(0, end)\<close>: \<open>end\<close> is cut to an integer towards zero (NaN counts as 0), a
  negative \<open>end\<close> counts from the end of the array.
\<close>

fun slice0 :: "'a list \<Rightarrow> jsnum \<Rightarrow> 'a list" where
  "slice0 xs NaN = []"
| "slice0 xs NInf = []"
| "slice0 xs PInf = xs"
| "slice0 xs (Fin r) =
     (let e = (if r < 0 then - \<lfloor>- r\<rfloor> else \<lfloor>r\<rfloor>)
      in if e < 0 then take (nat (int (length xs) + e)) xs else take (nat e) xs)"

text \<open>
  \<open>xs.sort(cmp)\<close>: the sort is stable, and an element moves behind another one only
  when the comparator returns a number greater than 0 for the pair (NaN counts as 0).
  With a consistent comparator this is the order ECMAScript prescribes; with an
  inconsistent one (NaN among the keys) ECMAScript leaves the order to the engine, and
  the model follows an insertion sort.
\<close>

fun sortInsert :: "('a \<Rightarrow> 'a \<Rightarrow> jsnum) \<Rightarrow> 'a \<Rightarrow> 'a list \<Rightarrow> 'a list" where
  "sortInsert cmp x [] = [x]"
| "sortInsert cmp x (y # ys) =
     (if jgt (cmp x y) (Fin 0) then y # sortInsert cmp x ys else x # y # ys)"

fun jsSort :: "('a \<Rightarrow> 'a \<Rightarrow> jsnum) \<Rightarrow> 'a list \<Rightarrow> 'a list" where
  "jsSort cmp [] = []"
| "jsSort cmp (x # xs) = sortInsert cmp x (jsSort cmp xs)"

section \<open>Similarity measures (lib/algorithms.ts)\<close>

subsection \<open>Levenshtein distance\<close>

text \<open>
  \<open>levenshteinDistance\<close> fills the table \<open>track[j][i]\<close> row by row, \<open>j\<close> running over
  \<open>str2\<close> and \<open>i\<close> over \<open>str1\<close>.  \<open>fillRow\<close> computes the cells \<open>track[j][i]\<close> of one
  row from left to right: its arguments are the units of \<open>str1\<close> still to come, the unit
  \<open>str2[j - 1]\<close>, the previous row from \<open>track[j - 1][i - 1]\<close> on, and the cell
  \<open>track[j][i - 1]\<close> to the left.
\<close>

fun fillRow :: "string \<Rightarrow> char \<Rightarrow> nat list \<Rightarrow> nat \<Rightarrow> nat list" where
  "fillRow (a # as) c (d # u # prev) left =
     (let indicator = (if a = c then 0 else 1);
          v = min (min (left + 1) (u + 1)) (d + indicator)
      in v # fillRow as c (u # prev) v)"
| "fillRow _ _ _ _ = []"

definition nextRow :: "string \<Rightarrow> char \<Rightarrow> nat list \<Rightarrow> nat \<Rightarrow> nat list" where
  "nextRow str1 c prev j = j # fillRow str1 c prev j"

fun levRows :: "string \<Rightarrow> string \<Rightarrow> nat list \<Rightarrow> nat \<Rightarrow> nat list" where
  "levRows str1 [] row j = row"
| "levRows str1 (c # cs) row j = levRows str1 cs (nextRow str1 c row (Suc j)) (Suc j)"

definition levenshteinDistance :: "string \<Rightarrow> string \<Rightarrow> nat" where
  "levenshteinDistance str1 str2 = last (levRows str1 str2 [0..<Suc (length str1)] 0)"

definition levenshteinSimilarity :: "string \<Rightarrow> string \<Rightarrow> jsnum" where
  "levenshteinSimilarity str1 str2 =
     (let maxLength = max (length str1) (length str2)
      in if maxLength = 0 then Fin 1
         else jsub (Fin 1)
                (jdiv (Fin (real (levenshteinDistance str1 str2))) (Fin (real maxLength))))"

text \<open>
  The classic edit distance with unit costs, by its recurrence over the lengths \<open>i\<close> and
  \<open>j\<close> of the prefixes of \<open>a\<close> and \<open>b\<close>: a deletion, an insertion or a substitution
  costs 1, a kept unit costs 0.
\<close>

fun editDistance :: "string \<Rightarrow> string \<Rightarrow> nat \<Rightarrow> nat \<Rightarrow> nat" where
  "editDistance a b 0 j = j"
| "editDistance a b (Suc i) 0 = Suc i"
| "editDistance a b (Suc i) (Suc j) =
     min (min (editDistance a b i (Suc j) + 1) (editDistance a b (Suc i) j + 1))
         (editDistance a b i j + (if a ! i = b ! j then 0 else 1))"

subsection \<open>Jaccard similarity\<close>

definition jaccardSimilarity :: "string list \<Rightarrow> string list \<Rightarrow> jsnum" where
  "jaccardSimilarity set1 set2 =
     (let intersection = newSet (filter (\<lambda>x. x \<in> set set2) set1);
          union = newSet (set1 @ set2)
      in jdiv (Fin (real (length intersection))) (Fin (real (length union))))"

subsection \<open>TF-IDF and BM25\<close>

definition calculateTF :: "string \<Rightarrow> string \<Rightarrow> jsnum" where
  "calculateTF term document =
     (let termCount = int (splitLength (toLowerCase document) (toLowerCase term)) - 1;
          wordCount = length (splitWs document)
      in jdiv (Fin (real_of_int termCount)) (Fin (real wordCount)))"

definition calculateIDF :: "string \<Rightarrow> string list \<Rightarrow> jsnum" where
  "calculateIDF term documents =
     (let numDocsWithTerm =
            length (filter (\<lambda>doc. includes_str (toLowerCase doc) (toLowerCase term)) documents)
      in jadd (jlog (jdiv (Fin (real (length documents))) (Fin (real (numDocsWithTerm + 1)))))
              (Fin 1))"

definition calculateTFIDF :: "string \<Rightarrow> string \<Rightarrow> string list \<Rightarrow> jsnum" where
  "calculateTFIDF term document documents =
     jmul (calculateTF term document) (calculateIDF term documents)"

definition queryTermsOf :: "string \<Rightarrow> string list" where
  "queryTermsOf query = filter (\<lambda>term. 2 < length term) (splitWs (toLowerCase query))"

definition calculateBM25 ::
  "string \<Rightarrow> string \<Rightarrow> jsnum \<Rightarrow> string list \<Rightarrow> jsnum \<Rightarrow> jsnum \<Rightarrow> jsnum" where
  "calculateBM25 query document avgDocLength documents k1 b =
     (let terms = queryTermsOf query;
          docLength = length (splitWs document)
      in foldl (\<lambda>score term.
                  let tf = calculateTF term document;
                      idf = calculateIDF term documents;
                      numerator = jmul tf (jadd k1 (Fin 1));
                      denominator =
                        jadd tf (jmul k1 (jadd (jsub (Fin 1) b)
                                   (jmul b (jdiv (Fin (real docLength)) avgDocLength))))
                  in jadd score (jmul idf (jdiv numerator denominator)))
               (Fin 0) terms)"

subsection \<open>The blended similarity (calculateSimilarity, lib/search.ts)\<close>

definition calculateSimilarity :: "string \<Rightarrow> string \<Rightarrow> jsnum" where
  "calculateSimilarity text1 text2 =
     (let tokens1 = queryTermsOf text1;
          tokens2 = queryTermsOf text2;
          set1 = newSet tokens1;
          set2 = newSet tokens2;
          intersection = newSet (filter (\<lambda>x. x \<in> set set2) set1);
          union = newSet (set1 @ set2);
          jaccardScore = jdiv (Fin (real (length intersection))) (Fin (real (length union)));
          levenshteinScore =
            (if length text1 < 100 \<and> length text2 < 100
             then levenshteinSimilarity text1 text2 else Fin 0)
      in jadd (jmul jaccardScore (Fin 0.7)) (jmul levenshteinScore (Fin 0.3)))"

section \<open>Knowledge entries, results and settings\<close>

record KnowledgeEntry =
  entry_id :: string
  moduleId :: string
  title :: string
  content :: string
  entry_keywords :: "string list"
  createdAt :: "jsnum option"
  updatedAt :: "jsnum option"

text \<open>A match is a field name with its \<open>[start, end]\<close> positions.\<close>

type_synonym match = "string \<times> (nat \<times> nat) list"

record SearchResult =
  entry :: KnowledgeEntry
  score :: jsnum
  matches :: "match list option"

text \<open>Of the settings the search reads the two fields below.\<close>

record Settings =
  relevanceThreshold :: jsnum
  maxResults :: jsnum

definition documentOf :: "KnowledgeEntry \<Rightarrow> string" where
  "documentOf e = title e @ '' '' @ content e"

section \<open>Query expansion (expandQuery)\<close>

definition stopWords :: "string list" where
  "stopWords =
     [''the'', ''and'', ''but'', ''for'', ''or'', ''nor'', ''so'', ''yet'', ''a'', ''an'',
      ''in'', ''to'', ''of'', ''at'', ''by'', ''for'', ''with'', ''about'', ''against'',
      ''between'', ''into'', ''through'', ''during'', ''before'', ''after'', ''above'',
      ''below'', ''from'', ''up'', ''down'', ''on'', ''off'', ''over'', ''under'', ''again'',
      ''further'', ''then'', ''once'', ''here'', ''there'', ''when'', ''where'', ''why'',
      ''how'', ''all'', ''any'', ''both'', ''each'', ''few'', ''more'', ''most'', ''other'',
      ''some'', ''such'', ''no'', ''nor'', ''not'', ''only'', ''own'', ''same'', ''so'',
      ''than'', ''too'', ''very'', ''can'', ''will'', ''just'']"

text \<open>The stop word pattern is anchored at both ends and ignores case.\<close>

definition isStopWord :: "string \<Rightarrow> bool" where
  "isStopWord term = (toLowerCase term \<in> set stopWords)"

definition isRelated :: "string list \<Rightarrow> string \<Rightarrow> bool" where
  "isRelated queryTerms term =
     list_ex (\<lambda>qTerm. jgt (levenshteinSimilarity qTerm term) (Fin 0.7)
                \<or> includes_str term qTerm \<or> includes_str qTerm term) queryTerms"

definition expandStep :: "string \<Rightarrow> string list \<Rightarrow> string list \<Rightarrow> KnowledgeEntry \<Rightarrow> string list" where
  "expandStep query queryTerms expandedTerms e =
     (let similarity = calculateSimilarity query (documentOf e)
      in if jgt similarity (Fin 0.3)
         then (let entryTerms =
                     filter (\<lambda>term. 3 < length term \<and> term \<notin> set queryTerms \<and> \<not> isStopWord term)
                       (splitWs (toLowerCase (documentOf e)))
               in foldl (\<lambda>acc term. if isRelated queryTerms term then setAdd acc term else acc)
                    expandedTerms entryTerms)
         else expandedTerms)"

definition finalTerms :: "string \<Rightarrow> KnowledgeEntry list \<Rightarrow> string list" where
  "finalTerms query entries =
     (let queryTerms = queryTermsOf query;
          expandedTerms = foldl (expandStep query queryTerms) (newSet queryTerms) entries
      in take (length queryTerms + 3) expandedTerms)"

definition expandQuery :: "string \<Rightarrow> KnowledgeEntry list \<Rightarrow> string" where
  "expandQuery query entries = joinSp (finalTerms query entries)"

section \<open>First-pass scoring (searchKnowledgeBase, lib/search.ts)\<close>

lemma findFrom_bounds:
  "findFrom s t k = Some p \<Longrightarrow> k \<le> p \<and> p + length t \<le> k + length s"
proof (induction s arbitrary: k)
  case Nil
  then show ?case by (simp split: if_splits)
next
  case (Cons c cs)
  show ?case
  proof (cases "take (length t) (c # cs) = t")
    case True
    then have "length (take (length t) (c # cs)) = length t"
      by simp
    then have "length t \<le> length (c # cs)"
      unfolding length_take by linarith
    with True Cons.prems show ?thesis by simp
  next
    case False
    with Cons.prems have "findFrom cs t (Suc k) = Some p" by simp
    from Cons.IH [OF this] show ?thesis by simp
  qed
qed

lemma indexOf_bounds:
  assumes "indexOf s t pos = Some p" and "t \<noteq> []"
  shows "pos \<le> p \<and> p + length t \<le> length s"
proof (cases "pos \<le> length s")
  case True
  with findFrom_bounds [of "drop pos s" t "min pos (length s)" p] assms
  show ?thesis by (simp add: indexOf_def min_def)
next
  case False
  with assms show ?thesis by (simp add: indexOf_def)
qed

text \<open>
  The loop that collects every occurrence of a term in a text: as long as
  \<open>text.indexOf(term, pos)\<close> is not -1, the pair of that index and of the index plus the
  length of the term is pushed, and \<open>pos\<close> moves behind the occurrence.
  For the empty term \<open>indexOf\<close> never returns -1 and \<open>pos\<close> never moves: the loop does not
  end, which is the result \<open>None\<close>.
\<close>

function allPositions :: "string \<Rightarrow> string \<Rightarrow> nat \<Rightarrow> (nat \<times> nat) list option" where
  "allPositions text term pos =
     (if term = [] then None
      else (case indexOf text term pos of
              None \<Rightarrow> Some []
            | Some p \<Rightarrow>
                map_option ((#) (p, p + length term))
                  (allPositions text term (p + length term))))"
  by pat_completeness auto

termination allPositions
proof (relation "measure (\<lambda>(text, term, pos). Suc (length text) - pos)")
  show "wf (measure (\<lambda>(text, term, pos). Suc (length text) - pos))" by simp
next
  fix s t :: string and pos p :: nat
  assume "t \<noteq> []" and "indexOf s t pos = Some p"
  from indexOf_bounds [OF this(2) this(1)] \<open>t \<noteq> []\<close>
  have "pos < p + length t" and "p + length t \<le> length s"
    by (cases t; simp)+
  then show "((s, t, p + length t), (s, t, pos))
      \<in> measure (\<lambda>(text, term, pos). Suc (length text) - pos)"
    by simp
qed

declare allPositions.simps [simp del]

text \<open>
  The running state of the scoring of one entry: the score and the matches so far.
\<close>

type_synonym acc = "jsnum \<times> match list"

text \<open>
  The exact phrase check of a field.  \<open>text.includes(q)\<close> holds exactly when
  \<open>text.indexOf(q)\<close> is not -1, and \<open>startPos\<close> is that index.
\<close>

definition exactMatch :: "string \<Rightarrow> string \<Rightarrow> string \<Rightarrow> real \<Rightarrow> acc \<Rightarrow> acc" where
  "exactMatch field text normalizedQuery w a =
     (case indexOf text normalizedQuery 0 of
        None \<Rightarrow> a
      | Some startPos \<Rightarrow>
          (jadd (fst a) (Fin w),
           snd a @ [(field, [(startPos, startPos + length normalizedQuery)])]))"

text \<open>
  The term loops of a field, over the query terms or over the expanded terms; \<open>None\<close>
  when the position loop of some term does not end.
\<close>

fun termMatches :: "string \<Rightarrow> string \<Rightarrow> real \<Rightarrow> string list \<Rightarrow> acc \<Rightarrow> acc option" where
  "termMatches field text w [] a = Some a"
| "termMatches field text w (term # terms) a =
     (if includes_str text term
      then (case allPositions text term 0 of
              None \<Rightarrow> None
            | Some positions \<Rightarrow>
                termMatches field text w terms
                  (jadd (fst a) (Fin w),
                   if positions \<noteq> [] then snd a @ [(field, positions)] else snd a))
      else termMatches field text w terms a)"

text \<open>The keyword loop changes the score only.\<close>

definition keywordScore :: "string \<Rightarrow> string list \<Rightarrow> jsnum \<Rightarrow> string \<Rightarrow> jsnum" where
  "keywordScore normalizedQuery queryTerms s keyword =
     (let keywordLower = toLowerCase keyword;
          s1 = (if keywordLower = normalizedQuery then jadd s (Fin 5)
                else if includes_str keywordLower normalizedQuery then jadd s (Fin 3)
                else s);
          s2 = foldl (\<lambda>s term. if includes_str keywordLower term then jadd s (Fin 2) else s)
                 s1 queryTerms
      in foldl (\<lambda>s term.
                  let similarity = levenshteinSimilarity term keywordLower
                  in if jgt similarity (Fin 0.8) then jadd s (jmul similarity (Fin 2)) else s)
           s2 queryTerms)"

definition statScore :: "string list \<Rightarrow> KnowledgeEntry list \<Rightarrow> KnowledgeEntry \<Rightarrow> jsnum \<Rightarrow> jsnum" where
  "statScore queryTerms allEntries e s =
     (let allDocuments = map documentOf allEntries;
          document = documentOf e;
          s1 = foldl (\<lambda>s term. jadd s (jmul (calculateTFIDF term document allDocuments) (Fin 2)))
                 s queryTerms;
          documentTerms = newSet (queryTermsOf document);
          queryTermSet = newSet queryTerms;
          jaccardScore = jaccardSimilarity queryTermSet documentTerms
      in jadd s1 (jmul jaccardScore (Fin 3)))"

text \<open>
  The substring checks of one entry, in the order of the source: exact phrase, query
  terms and expanded terms on the title, then the same three on the content.
\<close>

definition substringPass ::
  "string \<Rightarrow> string list \<Rightarrow> string list \<Rightarrow> KnowledgeEntry \<Rightarrow> acc option" where
  "substringPass normalizedQuery queryTerms expandedTerms e =
     (let titleText = toLowerCase (title e);
          contentText = toLowerCase (content e);
          a1 = exactMatch ''title'' titleText normalizedQuery 10 (Fin 0, [])
      in case termMatches ''title'' titleText 3 queryTerms a1 of
           None \<Rightarrow> None
         | Some a2 \<Rightarrow>
        (case termMatches ''title'' titleText 1.5 expandedTerms a2 of
           None \<Rightarrow> None
         | Some a3 \<Rightarrow>
        (let a4 = exactMatch ''content'' contentText normalizedQuery 5 a3
         in case termMatches ''content'' contentText 1 queryTerms a4 of
           None \<Rightarrow> None
         | Some a5 \<Rightarrow> termMatches ''content'' contentText 0.5 expandedTerms a5)))"

definition scoreEntry ::
  "string \<Rightarrow> string list \<Rightarrow> string list \<Rightarrow> KnowledgeEntry list \<Rightarrow> KnowledgeEntry
     \<Rightarrow> SearchResult option" where
  "scoreEntry normalizedQuery queryTerms expandedTerms allEntries e =
     (case substringPass normalizedQuery queryTerms expandedTerms e of
        None \<Rightarrow> None
      | Some a6 \<Rightarrow>
          (let s7 = foldl (keywordScore normalizedQuery queryTerms) (fst a6)
                      (entry_keywords e);
               s8 = statScore queryTerms allEntries e s7
           in Some \<lparr>entry = e, score = s8, matches = Some (snd a6)\<rparr>))"

text \<open>\<open>allEntries.map(...)\<close>: the entries are scored one after the other.\<close>

fun mapScored :: "('a \<Rightarrow> 'b option) \<Rightarrow> 'a list \<Rightarrow> 'b list option" where
  "mapScored f [] = Some []"
| "mapScored f (x # xs) =
     (case f x of
        None \<Rightarrow> None
      | Some y \<Rightarrow> map_option ((#) y) (mapScored f xs))"

definition normalizeQuery :: "string \<Rightarrow> string" where
  "normalizeQuery query = trim (toLowerCase query)"

definition searchTerms :: "string \<Rightarrow> string list" where
  "searchTerms normalizedQuery = filter (\<lambda>term. 2 < length term) (splitWs normalizedQuery)"

definition expandedTermsOf :: "string \<Rightarrow> KnowledgeEntry list \<Rightarrow> string list" where
  "expandedTermsOf normalizedQuery allEntries =
     filter (\<lambda>term. term \<notin> set (searchTerms normalizedQuery))
       (splitWs (expandQuery normalizedQuery allEntries))"

definition firstPass :: "KnowledgeEntry list \<Rightarrow> string \<Rightarrow> SearchResult list option" where
  "firstPass allEntries normalizedQuery =
     mapScored
       (scoreEntry normalizedQuery (searchTerms normalizedQuery)
          (expandedTermsOf normalizedQuery allEntries) allEntries)
       allEntries"

section \<open>Second ranking pass (rankResults, lib/algorithms.ts)\<close>

text \<open>
  \<open>byScoreDesc\<close> is the comparator of both sorts.  \<open>rescored\<close> is the function mapped
  over the results; \<open>avgDocLength\<close> and \<open>allDocuments\<close>, which the source computes once
  before the map, depend on the entries only.
\<close>

definition byScoreDesc :: "SearchResult \<Rightarrow> SearchResult \<Rightarrow> jsnum" where
  "byScoreDesc a b = jsub (score b) (score a)"

definition rescored :: "string \<Rightarrow> KnowledgeEntry list \<Rightarrow> SearchResult \<Rightarrow> SearchResult" where
  "rescored query allEntries result =
     (let avgDocLength =
            jdiv (foldl (\<lambda>sum e. jadd sum (Fin (real (length (splitWs (content e))))))
                    (Fin 0) allEntries)
                 (Fin (real (length allEntries)));
          allDocuments = map documentOf allEntries;
          e = entry result;
          document = documentOf e;
          bm25Score = calculateBM25 query document avgDocLength allDocuments (Fin 1.5) (Fin 0.75);
          s1 = jadd (score result) (jmul bm25Score (Fin 5));
          queryTerms = queryTermsOf query;
          s2 = foldl (\<lambda>s term. jadd s (jmul (calculateTFIDF term document allDocuments) (Fin 3)))
                 s1 queryTerms;
          titleSimilarity = levenshteinSimilarity (toLowerCase query) (toLowerCase (title e));
          s3 = jadd s2 (jmul titleSimilarity (Fin 2));
          querySet = newSet queryTerms;
          keywordSet = newSet (map toLowerCase (entry_keywords e));
          keywordSimilarity = jaccardSimilarity querySet keywordSet
      in result\<lparr>score := jadd s3 (jmul keywordSimilarity (Fin 4))\<rparr>)"

definition rankResults ::
  "string \<Rightarrow> SearchResult list \<Rightarrow> KnowledgeEntry list \<Rightarrow> SearchResult list" where
  "rankResults query results allEntries =
     (if results = [] then []
      else jsSort byScoreDesc (map (rescored query allEntries) results))"

section \<open>The search pipeline\<close>

text \<open>
  \<open>searchKnowledgeBase\<close> with the settings and the entries it reads from the stores as
  arguments.  The result \<open>None\<close> means that the call does not return.  No step of the
  pipeline throws on entries and settings of their types, so the \<open>catch\<close> branch of the
  source has no counterpart here.
\<close>

definition filteredResults :: "Settings \<Rightarrow> SearchResult list \<Rightarrow> SearchResult list" where
  "filteredResults settings scoredEntries =
     slice0
       (jsSort byScoreDesc
          (filter (\<lambda>item. jgt (score item) (jmul (relevanceThreshold settings) (Fin 10)))
             scoredEntries))
       (maxResults settings)"

definition searchKnowledgeBase ::
  "Settings \<Rightarrow> KnowledgeEntry list \<Rightarrow> string \<Rightarrow> SearchResult list option" where
  "searchKnowledgeBase settings allEntries query =
     (if trim query = [] then Some []
      else let normalizedQuery = normalizeQuery query;
               queryTerms = searchTerms normalizedQuery
           in if queryTerms = [] then Some []
              else (case firstPass allEntries normalizedQuery of
                      None \<Rightarrow> None
                    | Some scoredEntries \<Rightarrow>
                        Some (rankResults normalizedQuery
                                (filteredResults settings scoredEntries) allEntries)))"

section \<open>Notions used in the properties\<close>

text \<open>Row \<open>j\<close> of the table, as the recurrence gives it.\<close>

definition rowSpec :: "string \<Rightarrow> string \<Rightarrow> nat \<Rightarrow> nat list" where
  "rowSpec a b j = map (\<lambda>i. editDistance a b i j) [0..<Suc (length a)]"

text \<open>A string without white space.\<close>

abbreviation noWs :: "string \<Rightarrow> bool" where
  "noWs t \<equiv> (\<forall>c\<in>set t. \<not> isWhiteSpace c)"

text \<open>A token: a non-empty string without white space.\<close>

definition goodToken :: "string \<Rightarrow> bool" where
  "goodToken t = (t \<noteq> [] \<and> noWs t)"

text \<open>\<open>finiteGe b x\<close>: the number \<open>x\<close> is finite and at least \<open>b\<close>.\<close>

definition finiteGe :: "real \<Rightarrow> jsnum \<Rightarrow> bool" where
  "finiteGe b x = (case x of Fin r \<Rightarrow> b \<le> r | _ \<Rightarrow> False)"


text \<open>
  The sum of the six substring signals of an entry, each with its weight: the exact
  phrase, the query terms and the expanded terms in the title (10, 3 each, 1.5 each) and
  in the content (5, 1 each, 0.5 each).
\<close>

definition substringScore :: "string \<Rightarrow> string list \<Rightarrow> string list \<Rightarrow> KnowledgeEntry \<Rightarrow> real" where
  "substringScore nq qts ets e =
     (let tt = toLowerCase (title e); ct = toLowerCase (content e)
      in (if includes_str tt nq then 10 else 0)
         + 3 * real (length (filter (includes_str tt) qts))
         + 1.5 * real (length (filter (includes_str tt) ets))
         + (if includes_str ct nq then 5 else 0)
         + 1 * real (length (filter (includes_str ct) qts))
         + 0.5 * real (length (filter (includes_str ct) ets)))"

text \<open>Descending order: no result has a greater score than a result before it.\<close>

definition descending :: "SearchResult list \<Rightarrow> bool" where
  "descending rs = sorted_wrt (\<lambda>a b. \<not> jgt (score b) (score a)) rs"

section \<open>The Levenshtein table computes the edit distance\<close>

lemma editDistance_le_max: "editDistance a b i j \<le> max i j"
proof (induction a b i j rule: editDistance.induct)
  case (3 a b i j)
  have "editDistance a b (Suc i) (Suc j) \<le> editDistance a b i j + (if a ! i = b ! j then 0 else 1)"
    by simp
  also have "\<dots> \<le> max i j + 1" using 3 by simp
  finally show ?case by simp
qed simp_all

lemma editDistance_diag: "i \<le> length a \<Longrightarrow> editDistance a a i i = 0"
  by (induction i) simp_all

lemma editDistance_zero: "editDistance a b i 0 = i"
  by (cases i) simp_all

lemma rowSpec_nth: "k \<le> length a \<Longrightarrow> rowSpec a b j ! k = editDistance a b k j"
  unfolding rowSpec_def by (simp del: upt_Suc)

lemma fillRow_spec:
  assumes "i \<le> length a"
  shows "fillRow (drop i a) (b ! j) (drop i (rowSpec a b j)) (editDistance a b i (Suc j))
         = map (\<lambda>k. editDistance a b k (Suc j)) [Suc i..<Suc (length a)]"
  using assms
proof (induction "length a - i" arbitrary: i)
  case 0
  then have "i = length a" by simp
  then show ?case by simp
next
  case (Suc n)
  then have i: "i < length a" by simp
  have d1: "drop i a = a ! i # drop (Suc i) a"
    using i by (simp add: Cons_nth_drop_Suc)
  have len: "length (rowSpec a b j) = Suc (length a)" by (simp add: rowSpec_def)
  have d2: "drop i (rowSpec a b j) = editDistance a b i j # editDistance a b (Suc i) j # drop (Suc (Suc i)) (rowSpec a b j)"
  proof -
    have "drop i (rowSpec a b j) = rowSpec a b j ! i # drop (Suc i) (rowSpec a b j)"
      using i len by (simp add: Cons_nth_drop_Suc)
    moreover have "drop (Suc i) (rowSpec a b j) = rowSpec a b j ! Suc i # drop (Suc (Suc i)) (rowSpec a b j)"
      using i len by (simp add: Cons_nth_drop_Suc)
    ultimately show ?thesis
      using i by (simp add: rowSpec_nth)
  qed
  have d3: "drop (Suc i) (rowSpec a b j)
              = editDistance a b (Suc i) j # drop (Suc (Suc i)) (rowSpec a b j)"
    using i len by (simp add: Cons_nth_drop_Suc [symmetric] rowSpec_nth)
  have IH: "fillRow (drop (Suc i) a) (b ! j) (drop (Suc i) (rowSpec a b j)) (editDistance a b (Suc i) (Suc j))
         = map (\<lambda>k. editDistance a b k (Suc j)) [Suc (Suc i)..<Suc (length a)]"
    using Suc.hyps(1) [of "Suc i"] Suc.hyps(2) i by simp
  have upt: "[Suc i..<Suc (length a)] = Suc i # [Suc (Suc i)..<Suc (length a)]"
    using i by (simp add: upt_conv_Cons)
  define v where "v = editDistance a b (Suc i) (Suc j)"
  have v: "min (min (editDistance a b i (Suc j) + 1) (editDistance a b (Suc i) j + 1))
             (editDistance a b i j + (if a ! i = b ! j then 0 else 1)) = v"
    by (simp add: v_def)
  have "fillRow (drop i a) (b ! j) (drop i (rowSpec a b j)) (editDistance a b i (Suc j))
        = v # fillRow (drop (Suc i) a) (b ! j) (drop (Suc i) (rowSpec a b j)) v"
    by (simp only: d1 d2 fillRow.simps Let_def v d3)
  also have "\<dots> = v # map (\<lambda>k. editDistance a b k (Suc j)) [Suc (Suc i)..<Suc (length a)]"
    using IH by (simp only: v_def)
  also have "\<dots> = map (\<lambda>k. editDistance a b k (Suc j)) [Suc i..<Suc (length a)]"
    by (simp only: upt list.map v_def)
  finally show ?case .
qed

lemma nextRow_spec:
  "nextRow a (b ! j) (rowSpec a b j) (Suc j) = rowSpec a b (Suc j)"
proof -
  have "fillRow a (b ! j) (rowSpec a b j) (editDistance a b 0 (Suc j))
         = map (\<lambda>k. editDistance a b k (Suc j)) [Suc 0..<Suc (length a)]"
    using fillRow_spec [of 0 a b j] by simp
  then show ?thesis
    by (simp add: nextRow_def rowSpec_def upt_conv_Cons del: upt_Suc)
qed

lemma levRows_spec:
  assumes "j \<le> length b"
  shows "levRows a (drop j b) (rowSpec a b j) j = rowSpec a b (length b)"
  using assms
proof (induction "length b - j" arbitrary: j)
  case 0
  then show ?case by simp
next
  case (Suc n)
  then have j: "j < length b" by simp
  then have d: "drop j b = b ! j # drop (Suc j) b"
    by (simp add: Cons_nth_drop_Suc)
  show ?case
    unfolding d using Suc.hyps(1) [of "Suc j"] Suc.hyps(2) j
    by (simp add: nextRow_spec)
qed

lemma levenshteinDistance_editDistance:
  "levenshteinDistance a b = editDistance a b (length a) (length b)"
proof -
  have "[0..<Suc (length a)] = rowSpec a b 0"
    by (simp add: rowSpec_def editDistance_zero del: upt_Suc)
  then have "levRows a b [0..<Suc (length a)] 0 = rowSpec a b (length b)"
    using levRows_spec [of 0 b a] by simp
  then show ?thesis
    by (simp add: levenshteinDistance_def rowSpec_def last_map del: upt_Suc) 
qed

section \<open>Sets as lists without repetition\<close>

lemma setAdd_props: "distinct s \<Longrightarrow> distinct (setAdd s x) \<and> set (setAdd s x) = insert x (set s)"
  by (auto simp: setAdd_def)

lemma foldl_setAdd_props:
  "distinct acc \<Longrightarrow> distinct (foldl setAdd acc xs) \<and> set (foldl setAdd acc xs) = set acc \<union> set xs"
proof (induction xs arbitrary: acc)
  case Nil
  then show ?case by simp
next
  case (Cons x xs)
  from setAdd_props [OF Cons.prems, of x] Cons.IH [of "setAdd acc x"]
  show ?case by auto
qed

lemma distinct_newSet: "distinct (newSet xs)"
  using foldl_setAdd_props [of "[]" xs] by (simp add: newSet_def)

lemma set_newSet: "set (newSet xs) = set xs"
  using foldl_setAdd_props [of "[]" xs] by (simp add: newSet_def)

lemma length_newSet: "length (newSet xs) = card (set xs)"
  using distinct_newSet [of xs] set_newSet [of xs] by (metis distinct_card)

lemma newSet_Nil_iff: "newSet xs = [] \<longleftrightarrow> xs = []"
  using set_newSet [of xs] by (metis set_empty)

section \<open>Jaccard similarity\<close>

lemma jaccardSimilarity_card:
  "jaccardSimilarity A B =
     jdiv (Fin (real (card (set A \<inter> set B)))) (Fin (real (card (set A \<union> set B))))"
proof -
  have "set (filter (\<lambda>x. x \<in> set B) A) = set A \<inter> set B" by auto
  then have "length (newSet (filter (\<lambda>x. x \<in> set B) A)) = card (set A \<inter> set B)"
    by (simp only: length_newSet)
  moreover have "length (newSet (A @ B)) = card (set A \<union> set B)"
    by (simp only: length_newSet set_append)
  ultimately show ?thesis
    by (simp only: jaccardSimilarity_def Let_def)
qed

lemma jaccardSimilarity_sym: "jaccardSimilarity A B = jaccardSimilarity B A"
  by (simp add: jaccardSimilarity_card Int_commute Un_commute)

lemma jaccardSimilarity_self: "A \<noteq> [] \<Longrightarrow> jaccardSimilarity A A = Fin 1"
proof -
  assume "A \<noteq> []"
  then have "card (set A) \<noteq> 0" by simp
  then show ?thesis by (simp add: jaccardSimilarity_card)
qed

text \<open>
  Claim C3.  The Jaccard similarity is symmetric and is 1 on a non-empty set with itself
  (the two lemmas above), but on two empty sets the quotient of the two sizes is 0/0:
  the function returns NaN, not a similarity value.
\<close>

theorem jaccardSimilarity_empty_is_NaN: "jaccardSimilarity [] [] = NaN"
  by (simp add: jaccardSimilarity_def newSet_def)

section \<open>Levenshtein similarity\<close>

lemma lev_formula: "levenshteinSimilarity a b =
       (if a = [] \<and> b = [] then Fin 1
        else Fin (1 - real (editDistance a b (length a) (length b))
                        / real (max (length a) (length b))))"
  by (auto simp add: levenshteinSimilarity_def Let_def jsub_def levenshteinDistance_editDistance max_def)

lemma levenshteinSimilarity_range:
  "\<exists>r. levenshteinSimilarity a b = Fin r \<and> 0 \<le> r \<and> r \<le> 1"
proof (cases "a = [] \<and> b = []")
  case True
  then show ?thesis by (simp add: lev_formula)
next
  case False
  then have "0 < real (max (length a) (length b))" by (cases a; cases b; simp)
  moreover have "real (editDistance a b (length a) (length b)) \<le> real (max (length a) (length b))"
    using editDistance_le_max [of a b "length a" "length b"] by (simp only: of_nat_le_iff)
  ultimately have
    "real (editDistance a b (length a) (length b)) / real (max (length a) (length b)) \<le> 1"
    by (simp add: divide_le_eq_1)
  moreover have
    "0 \<le> real (editDistance a b (length a) (length b)) / real (max (length a) (length b))"
    by simp
  ultimately show ?thesis using False by (simp add: lev_formula)
qed

text \<open>
  Claim C4.  The Levenshtein similarity of two strings lies between 0 and 1, it is 1 for
  a string and itself and for two empty strings, and it is 1 minus the classic unit-cost
  edit distance divided by the greater of the two lengths.
\<close>

theorem levenshteinSimilarity_bounds:
  "jle (Fin 0) (levenshteinSimilarity a b) \<and> jle (levenshteinSimilarity a b) (Fin 1)
   \<and> levenshteinSimilarity a a = Fin 1
   \<and> levenshteinSimilarity [] [] = Fin 1
   \<and> levenshteinSimilarity a b =
       (if a = [] \<and> b = [] then Fin 1
        else Fin (1 - real (editDistance a b (length a) (length b))
                        / real (max (length a) (length b))))"
proof -
  from levenshteinSimilarity_range [of a b]
  have "jle (Fin 0) (levenshteinSimilarity a b) \<and> jle (levenshteinSimilarity a b) (Fin 1)"
    by auto
  moreover have "levenshteinSimilarity a a = Fin 1"
    by (simp add: lev_formula editDistance_diag)
  moreover have "levenshteinSimilarity [] [] = Fin 1"
    by (simp add: lev_formula)
  ultimately show ?thesis using lev_formula [of a b] by blast
qed

section \<open>Strings: lower case, trimming and splitting\<close>

lemma of_char_lower_code:
  "(of_char c :: nat) \<le> 222 \<Longrightarrow> of_char (char_of (of_char c + 32 :: nat)) = (of_char c + 32 :: nat)"
  by (simp add: of_char_of)

lemma toLowerChar_idem: "toLowerChar (toLowerChar c) = toLowerChar c"
  using of_char_lower_code [of c] by (auto simp add: toLowerChar_def Let_def)

lemma isWhiteSpace_toLowerChar: "isWhiteSpace (toLowerChar c) = isWhiteSpace c"
  using of_char_lower_code [of c] by (auto simp add: isWhiteSpace_def toLowerChar_def Let_def)

lemma toLowerCase_idem: "toLowerCase (toLowerCase s) = toLowerCase s"
  by (simp add: toLowerCase_def toLowerChar_idem)

lemma trim_Nil_iff: "trim s = [] \<longleftrightarrow> (\<forall>c\<in>set s. isWhiteSpace c)"
proof
  assume "\<forall>c\<in>set s. isWhiteSpace c"
  then show "trim s = []"
    by (auto simp add: trim_def dest: set_dropWhileD)
next
  assume "trim s = []"
  then have all: "\<forall>c\<in>set (dropWhile isWhiteSpace s). isWhiteSpace c"
    by (simp add: trim_def)
  have "dropWhile isWhiteSpace s = []"
  proof (rule ccontr)
    assume ne: "dropWhile isWhiteSpace s \<noteq> []"
    then have "\<not> isWhiteSpace (hd (dropWhile isWhiteSpace s))"
      by (rule hd_dropWhile)
    moreover have "hd (dropWhile isWhiteSpace s) \<in> set (dropWhile isWhiteSpace s)"
      using ne by simp
    ultimately show False using all by blast
  qed
  then show "\<forall>c\<in>set s. isWhiteSpace c"
    by simp
qed

lemma toLowerCase_trim: "toLowerCase (trim s) = trim (toLowerCase s)"
proof -
  have "isWhiteSpace \<circ> toLowerChar = isWhiteSpace"
    by (rule ext) (simp add: isWhiteSpace_toLowerChar)
  then show ?thesis
    by (simp add: toLowerCase_def trim_def rev_map dropWhile_map)
qed

lemma toLowerCase_normalize: "toLowerCase (normalizeQuery q) = normalizeQuery q"
  by (simp add: normalizeQuery_def toLowerCase_trim toLowerCase_idem)

lemma normalize_Nil_iff: "normalizeQuery q = [] \<longleftrightarrow> trim q = []"
  by (simp add: normalizeQuery_def trim_Nil_iff toLowerCase_def isWhiteSpace_toLowerChar)

lemma splitWs_noWs: "noWs s \<Longrightarrow> splitWs s = [s]"
proof -
  assume "noWs s"
  then have h: "dropWhile (\<lambda>c. \<not> isWhiteSpace c) s = []" by simp
  show ?thesis by (subst splitWs.simps) (simp only: h list.case)
qed

lemma splitWs_Cons:
  "dropWhile (\<lambda>c. \<not> isWhiteSpace c) s = c # rest \<Longrightarrow>
   splitWs s = takeWhile (\<lambda>c. \<not> isWhiteSpace c) s # splitWs (dropWhile isWhiteSpace rest)"
proof -
  assume h: "dropWhile (\<lambda>c. \<not> isWhiteSpace c) s = c # rest"
  show ?thesis by (subst splitWs.simps) (simp only: h list.case)
qed

lemma splitWs_token_rest:
  assumes "noWs t" and "isWhiteSpace c"
  shows "splitWs (t @ c # r) = t # splitWs (dropWhile isWhiteSpace r)"
proof -
  have "dropWhile (\<lambda>c. \<not> isWhiteSpace c) (t @ c # r) = c # r"
    using assms by (simp add: dropWhile_append2 [where P = "\<lambda>c. \<not> isWhiteSpace c"] dropWhile_append3)
  moreover have "takeWhile (\<lambda>c. \<not> isWhiteSpace c) (t @ c # r) = t"
    using assms by (simp add: takeWhile_append2 [where P = "\<lambda>c. \<not> isWhiteSpace c"] takeWhile_tail)
  ultimately show ?thesis using splitWs_Cons by metis
qed

lemma splitWs_not_Nil: "splitWs s \<noteq> []"
  by (subst splitWs.simps) (simp split: list.split)

lemma splitWs_tokens_noWs: "t \<in> set (splitWs s) \<Longrightarrow> noWs t"
proof (induction s arbitrary: t rule: splitWs.induct)
  case (1 s)
  show ?case
  proof (cases "dropWhile (\<lambda>c. \<not> isWhiteSpace c) s")
    case Nil
    then have "noWs s" by simp
    with "1.prems" show ?thesis by (simp add: splitWs_noWs)
  next
    case (Cons c rest)
    from "1.prems" have "t = takeWhile (\<lambda>c. \<not> isWhiteSpace c) s \<or> t \<in> set (splitWs (dropWhile isWhiteSpace rest))"
      by (simp add: splitWs_Cons [OF Cons])
    then show ?thesis
    proof
      assume "t = takeWhile (\<lambda>c. \<not> isWhiteSpace c) s"
      then show ?thesis by (auto dest: set_takeWhileD)
    next
      assume "t \<in> set (splitWs (dropWhile isWhiteSpace rest))"
      then show ?thesis using "1.IH" [OF Cons] by blast
    qed
  qed
qed


lemma dropWhile_joinSp:
  "ts \<noteq> [] \<Longrightarrow> goodToken (hd ts) \<Longrightarrow> dropWhile isWhiteSpace (joinSp ts) = joinSp ts"
proof -
  assume "ts \<noteq> []" and g: "goodToken (hd ts)"
  then obtain t ts' where ts: "ts = t # ts'" by (cases ts) auto
  with g obtain c t' where t: "t = c # t'" and "\<not> isWhiteSpace c"
    by (cases t) (auto simp: goodToken_def)
  then show ?thesis unfolding ts by (cases ts') simp_all
qed

lemma splitWs_joinSp:
  "ts \<noteq> [] \<Longrightarrow> \<forall>t\<in>set ts. goodToken t \<Longrightarrow> splitWs (joinSp ts) = ts"
proof (induction ts rule: joinSp.induct)
  case 1
  then show ?case by simp
next
  case (2 t)
  then show ?case by (simp add: splitWs_noWs goodToken_def)
next
  case (3 t u ts)
  have sp: "isWhiteSpace CHR '' ''" by (simp add: isWhiteSpace_def)
  have "noWs t" using "3.prems" by (simp add: goodToken_def)
  from splitWs_token_rest [OF this sp]
  have "splitWs (joinSp (t # u # ts)) = t # splitWs (dropWhile isWhiteSpace (joinSp (u # ts)))"
    by simp
  also have "dropWhile isWhiteSpace (joinSp (u # ts)) = joinSp (u # ts)"
    using "3.prems" by (intro dropWhile_joinSp) simp_all
  also have "splitWs (joinSp (u # ts)) = u # ts"
    using "3.IH" "3.prems" by simp
  finally show ?case .
qed

lemma splitWs_trailing:
  assumes "w \<noteq> []" and "\<forall>c\<in>set w. isWhiteSpace c"
  shows "u = [] \<or> \<not> isWhiteSpace (last u) \<Longrightarrow> splitWs (u @ w) = splitWs u @ [[]]"
proof (induction u rule: splitWs.induct)
  case (1 u)
  obtain c w' where w: "w = c # w'" and c: "isWhiteSpace c"
    using assms by (cases w) auto
  have w'_ws: "dropWhile isWhiteSpace w' = []"
    using assms(2) w by simp
  show ?case
  proof (cases "dropWhile (\<lambda>c. \<not> isWhiteSpace c) u")
    case Nil
    then have u: "noWs u" by simp
    from splitWs_token_rest [OF u c, of w'] w'_ws
    have "splitWs (u @ w) = [u, []]"
      by (simp add: w splitWs_noWs)
    then show ?thesis using u by (simp add: splitWs_noWs)
  next
    case (Cons d rest)
    then have u_eq: "u = takeWhile (\<lambda>c. \<not> isWhiteSpace c) u @ d # rest"
      by (metis takeWhile_dropWhile_id)
    have d: "isWhiteSpace d"
      using Cons hd_dropWhile [of "\<lambda>c. \<not> isWhiteSpace c" u] by auto
    have u_ne: "u \<noteq> []" using Cons by auto
    with "1.prems" have last_u: "\<not> isWhiteSpace (last u)" by simp
    have last_eq: "last u = last (d # rest)"
      by (subst u_eq) simp
    have ex: "\<exists>x\<in>set rest. \<not> isWhiteSpace x"
    proof (rule ccontr)
      assume "\<not> ?thesis"
      then have "\<forall>x\<in>set (d # rest). isWhiteSpace x" using d by simp
      moreover have "last (d # rest) \<in> set (d # rest)" by (rule last_in_set) simp
      ultimately show False using last_u last_eq by metis
    qed
    define u' where "u' = dropWhile isWhiteSpace rest"
    have u'_ne: "u' \<noteq> []" using ex by (simp add: u'_def)
    have "last u' = last rest"
      unfolding u'_def using u'_ne unfolding u'_def
      by (metis append_take_drop_id last_appendR takeWhile_dropWhile_id)
    moreover have "rest \<noteq> []" using ex by auto
    ultimately have last_u': "\<not> isWhiteSpace (last u')"
      using last_u last_eq by simp
    have "noWs (takeWhile (\<lambda>c. \<not> isWhiteSpace c) u)"
      by (auto dest: set_takeWhileD)
    from splitWs_token_rest [OF this d, of "rest @ w"]
    have "splitWs (u @ w) = takeWhile (\<lambda>c. \<not> isWhiteSpace c) u # splitWs (dropWhile isWhiteSpace (rest @ w))"
      by (subst u_eq) simp
    also have "dropWhile isWhiteSpace (rest @ w) = u' @ w"
    proof -
      from ex obtain x where "x \<in> set rest" and "\<not> isWhiteSpace x" by blast
      then show ?thesis unfolding u'_def by (rule dropWhile_append1)
    qed
    also have "splitWs (u' @ w) = splitWs u' @ [[]]"
      unfolding u'_def
      by (rule "1.IH" [OF Cons]) (use last_u' u'_def in simp)
    finally show ?thesis
      by (simp add: splitWs_Cons [OF Cons] u'_def)
  qed
qed

lemma filter_splitWs_trim:
  "filter (\<lambda>t. n < length t) (splitWs (trim s)) = filter (\<lambda>t. n < length t) (splitWs s)"
proof -
  define s1 where "s1 = dropWhile isWhiteSpace s"
  define w where "w = rev (takeWhile isWhiteSpace (rev s1))"
  have trim: "trim s = rev (dropWhile isWhiteSpace (rev s1))"
    by (simp add: trim_def s1_def)
  have s1: "s1 = trim s @ w"
    unfolding trim w_def by (metis rev_append rev_rev_ident takeWhile_dropWhile_id)
  have w_ws: "\<forall>c\<in>set w. isWhiteSpace c"
    unfolding w_def by (auto dest: set_takeWhileD)
  have last: "trim s = [] \<or> \<not> isWhiteSpace (last (trim s))"
  proof (cases "trim s = []")
    case False
    then have ne: "dropWhile isWhiteSpace (rev s1) \<noteq> []" by (simp add: trim)
    have "last (trim s) = hd (dropWhile isWhiteSpace (rev s1))"
      unfolding trim using ne by (simp add: last_rev)
    with hd_dropWhile [OF ne] show ?thesis by simp
  qed simp
  have "filter (\<lambda>t. n < length t) (splitWs (trim s)) = filter (\<lambda>t. n < length t) (splitWs s1)"
  proof (cases "w = []")
    case True
    with s1 show ?thesis by simp
  next
    case False
    from splitWs_trailing [OF False w_ws last] s1 show ?thesis by simp
  qed
  also have "\<dots> = filter (\<lambda>t. n < length t) (splitWs s)"
  proof (cases s)
    case Nil
    then show ?thesis by (simp add: s1_def)
  next
    case (Cons c r)
    show ?thesis
    proof (cases "isWhiteSpace c")
      case False
      with Cons show ?thesis by (simp add: s1_def)
    next
      case True
      then have "dropWhile (\<lambda>c. \<not> isWhiteSpace c) s = c # r"
        using Cons by simp
      from splitWs_Cons [OF this] True Cons show ?thesis by (simp add: s1_def)
    qed
  qed
  finally show ?thesis .
qed

section \<open>Queries without a search term\<close>




text \<open>
  Claim C2.  For an empty query and for a query of white space only the search returns
  the empty list: it returns, and the result is no error.
\<close>

theorem blank_query_gives_no_results:
  "\<forall>c\<in>set query. isWhiteSpace c \<Longrightarrow>
   searchKnowledgeBase settings allEntries query = Some []"
  by (simp add: searchKnowledgeBase_def trim_Nil_iff)

theorem blank_query_witness:
  "searchKnowledgeBase \<lparr>relevanceThreshold = Fin 0.5, maxResults = Fin 3\<rparr>
     [\<lparr>entry_id = ''1'', moduleId = ''m'', title = ''Ballistic Weave'', content = ''armor mod'',
       entry_keywords = [''ballistic''], createdAt = None, updatedAt = None\<rparr>]
     ''   '' = Some []"
proof -
  have "\<forall>c\<in>set ''   ''. isWhiteSpace c" by (simp add: isWhiteSpace_def)
  then show ?thesis by (rule blank_query_gives_no_results)
qed

section \<open>Query expansion\<close>

lemma queryTermsOf_searchTerms: "queryTermsOf query = searchTerms (normalizeQuery query)"
  by (simp add: queryTermsOf_def searchTerms_def normalizeQuery_def filter_splitWs_trim)

lemma queryTermsOf_normalizeQuery:
  "queryTermsOf (normalizeQuery query) = searchTerms (normalizeQuery query)"
  by (simp add: queryTermsOf_def searchTerms_def toLowerCase_normalize)

lemma goodToken_splitWs: "t \<in> set (splitWs s) \<Longrightarrow> t \<noteq> [] \<Longrightarrow> goodToken t"
  using splitWs_tokens_noWs [of t s] by (simp add: goodToken_def)

lemma goodToken_queryTermsOf: "t \<in> set (queryTermsOf q) \<Longrightarrow> goodToken t"
  by (auto simp add: queryTermsOf_def intro: goodToken_splitWs)

lemma goodToken_searchTerms: "t \<in> set (searchTerms q) \<Longrightarrow> goodToken t"
  by (auto simp add: searchTerms_def intro: goodToken_splitWs)

lemma foldl_add_related:
  "set (foldl (\<lambda>acc term. if P term then setAdd acc term else acc) acc0 ts) \<subseteq> set acc0 \<union> set ts
   \<and> (acc0 \<noteq> [] \<longrightarrow> foldl (\<lambda>acc term. if P term then setAdd acc term else acc) acc0 ts \<noteq> [])"
proof (induction ts arbitrary: acc0)
  case Nil
  then show ?case by simp
next
  case (Cons t ts)
  have "set (setAdd acc0 t) \<subseteq> insert t (set acc0)" by (auto simp add: setAdd_def)
  moreover have "acc0 \<noteq> [] \<longrightarrow> setAdd acc0 t \<noteq> []" by (simp add: setAdd_def)
  ultimately show ?case
    using Cons.IH [of "setAdd acc0 t"] Cons.IH [of acc0] by auto
qed

lemma expandStep_good:
  assumes "\<forall>t\<in>set acc. goodToken t"
  shows "\<forall>t\<in>set (expandStep q qts acc e). goodToken t"
proof -
  let ?entryTerms = "filter (\<lambda>term. 3 < length term \<and> term \<notin> set qts \<and> \<not> isStopWord term)
                       (splitWs (toLowerCase (documentOf e)))"
  have "\<forall>t\<in>set ?entryTerms. goodToken t"
    by (auto intro: goodToken_splitWs)
  with assms foldl_add_related [of "isRelated qts" acc ?entryTerms]
  show ?thesis
    unfolding expandStep_def Let_def by (auto split: if_splits)
qed

lemma expandStep_not_Nil: "acc \<noteq> [] \<Longrightarrow> expandStep q qts acc e \<noteq> []"
  using foldl_add_related [of "isRelated qts" acc]
  unfolding expandStep_def Let_def by simp

lemma foldl_expandStep:
  "\<forall>t\<in>set acc. goodToken t \<Longrightarrow>
   (\<forall>t\<in>set (foldl (expandStep q qts) acc es). goodToken t)
   \<and> (acc \<noteq> [] \<longrightarrow> foldl (expandStep q qts) acc es \<noteq> [])"
proof (induction es arbitrary: acc)
  case Nil
  then show ?case by simp
next
  case (Cons e es)
  from Cons.IH [OF expandStep_good [OF Cons.prems, of q qts e]] expandStep_not_Nil [of acc q qts e]
  show ?case by simp
qed

lemma finalTerms_good: "t \<in> set (finalTerms q es) \<Longrightarrow> goodToken t"
proof -
  have "\<forall>t\<in>set (newSet (queryTermsOf q)). goodToken t"
    by (simp add: set_newSet goodToken_queryTermsOf)
  from foldl_expandStep [OF this, of q "queryTermsOf q" es]
  show "t \<in> set (finalTerms q es) \<Longrightarrow> goodToken t"
    unfolding finalTerms_def Let_def by (auto dest: in_set_takeD)
qed

lemma finalTerms_not_Nil: "queryTermsOf q \<noteq> [] \<Longrightarrow> finalTerms q es \<noteq> []"
proof -
  assume ne: "queryTermsOf q \<noteq> []"
  have "\<forall>t\<in>set (newSet (queryTermsOf q)). goodToken t"
    by (simp add: set_newSet goodToken_queryTermsOf)
  from foldl_expandStep [OF this, of q "queryTermsOf q" es] ne
  show ?thesis
    unfolding finalTerms_def Let_def by (simp add: newSet_Nil_iff)
qed

lemma length_finalTerms: "length (finalTerms q es) \<le> length (queryTermsOf q) + 3"
  by (simp add: finalTerms_def Let_def)

lemma splitWs_expandQuery:
  "splitWs (expandQuery q es) = (if finalTerms q es = [] then [[]] else finalTerms q es)"
proof (cases "finalTerms q es = []")
  case True
  then show ?thesis by (simp add: expandQuery_def splitWs_noWs)
next
  case False
  then show ?thesis
    using splitWs_joinSp [of "finalTerms q es"] finalTerms_good [of _ q es]
    by (simp add: expandQuery_def)
qed

text \<open>
  Claim C5.  The list of terms that query expansion produces, as the array that is joined
  and as the pieces of the joined string, has at most three terms more than the
  normalized query has tokens of more than two code units.  A query of two such tokens
  thus expands to at most five terms.
\<close>

theorem expansion_is_capped:
  "length (finalTerms query entries) \<le> length (searchTerms (normalizeQuery query)) + 3
   \<and> length (splitWs (expandQuery query entries))
       \<le> length (searchTerms (normalizeQuery query)) + 3"
  using length_finalTerms [of query entries]
  by (simp add: splitWs_expandQuery queryTermsOf_searchTerms [symmetric])

section \<open>The search returns\<close>

lemma allPositions_returns: "t \<noteq> [] \<Longrightarrow> \<exists>ps. allPositions s t pos = Some ps"
proof (induction s t pos rule: allPositions.induct)
  case (1 s t pos)
  show ?case
  proof (cases "indexOf s t pos")
    case None
    with "1.prems" show ?thesis by (subst allPositions.simps) simp
  next
    case (Some p)
    from "1.IH" [OF "1.prems" Some "1.prems"]
    obtain ps where "allPositions s t (p + length t) = Some ps" by blast
    with Some "1.prems" show ?thesis by (subst allPositions.simps) simp
  qed
qed

lemma termMatches_returns:
  "\<forall>t\<in>set ts. t \<noteq> [] \<Longrightarrow> \<exists>a'. termMatches field s w ts a = Some a'"
proof (induction ts arbitrary: a)
  case Nil
  then show ?case by simp
next
  case (Cons t ts)
  then have "t \<noteq> []" by simp
  from allPositions_returns [OF this, of s 0]
  obtain ps where "allPositions s t 0 = Some ps" by blast
  with Cons show ?case by simp
qed

lemma substringPass_returns:
  assumes "\<forall>t\<in>set queryTerms. t \<noteq> []" and "\<forall>t\<in>set expandedTerms. t \<noteq> []"
  shows "\<exists>a. substringPass nq queryTerms expandedTerms e = Some a"
proof -
  let ?tt = "toLowerCase (title e)" and ?ct = "toLowerCase (content e)"
  obtain a2 where a2: "termMatches ''title'' ?tt 3 queryTerms
      (exactMatch ''title'' ?tt nq 10 (Fin 0, [])) = Some a2"
    using termMatches_returns [OF assms(1)] by blast
  obtain a3 where a3: "termMatches ''title'' ?tt 1.5 expandedTerms a2 = Some a3"
    using termMatches_returns [OF assms(2)] by blast
  obtain a5 where a5: "termMatches ''content'' ?ct 1 queryTerms
      (exactMatch ''content'' ?ct nq 5 a3) = Some a5"
    using termMatches_returns [OF assms(1)] by blast
  obtain a6 where a6: "termMatches ''content'' ?ct 0.5 expandedTerms a5 = Some a6"
    using termMatches_returns [OF assms(2)] by blast
  show ?thesis
    unfolding substringPass_def Let_def by (simp only: a2 a3 a5 a6 option.case) blast
qed

lemma scoreEntry_returns:
  assumes "\<forall>t\<in>set queryTerms. t \<noteq> []" and "\<forall>t\<in>set expandedTerms. t \<noteq> []"
  shows "\<exists>r. scoreEntry nq queryTerms expandedTerms allEntries e = Some r"
proof -
  from substringPass_returns [OF assms]
  obtain a where "substringPass nq queryTerms expandedTerms e = Some a" by blast
  then show ?thesis by (simp add: scoreEntry_def Let_def)
qed

lemma mapScored_returns:
  "\<forall>x\<in>set xs. \<exists>y. f x = Some y \<Longrightarrow> \<exists>ys. mapScored f xs = Some ys \<and> length ys = length xs"
proof (induction xs)
  case Nil
  then show ?case by simp
next
  case (Cons x xs)
  then obtain y ys where "f x = Some y" and "mapScored f xs = Some ys" and "length ys = length xs"
    by auto
  then show ?case by simp
qed

lemma expandedTermsOf_not_empty:
  assumes "searchTerms (normalizeQuery q) \<noteq> []"
  shows "\<forall>t\<in>set (expandedTermsOf (normalizeQuery q) es). t \<noteq> []"
proof -
  have "finalTerms (normalizeQuery q) es \<noteq> []"
    using assms by (intro finalTerms_not_Nil) (simp add: queryTermsOf_normalizeQuery)
  then have "splitWs (expandQuery (normalizeQuery q) es) = finalTerms (normalizeQuery q) es"
    by (simp add: splitWs_expandQuery)
  then show ?thesis
    using finalTerms_good [of _ "normalizeQuery q" es]
    by (auto simp add: expandedTermsOf_def goodToken_def)
qed

lemma firstPass_returns:
  assumes "searchTerms (normalizeQuery q) \<noteq> []"
  shows "\<exists>scored. firstPass es (normalizeQuery q) = Some scored \<and> length scored = length es"
proof -
  have q: "\<forall>t\<in>set (searchTerms (normalizeQuery q)). t \<noteq> []"
    using goodToken_searchTerms by (auto simp add: goodToken_def)
  show ?thesis
    unfolding firstPass_def
    by (rule mapScored_returns)
       (use scoreEntry_returns [OF q expandedTermsOf_not_empty [OF assms]] in blast)
qed

lemma length_sortInsert: "length (sortInsert cmp x xs) = Suc (length xs)"
  by (induction xs) simp_all

lemma length_jsSort: "length (jsSort cmp xs) = length xs"
  by (induction xs) (simp_all add: length_sortInsert)

lemma length_rankResults: "length (rankResults q rs es) = length rs"
  by (simp add: rankResults_def length_jsSort)


section \<open>The result cap and the threshold\<close>

lemma slice0_within_cap:
  "jle (Fin 0) k \<Longrightarrow> jle (Fin (real (length (slice0 xs k)))) k"
proof (cases k)
  case (Fin r)
  assume "jle (Fin 0) k"
  with Fin have r: "0 \<le> r" by simp
  then have "real (min (length xs) (nat \<lfloor>r\<rfloor>)) \<le> r"
    by (metis min.cobounded2 of_nat_le_iff of_nat_nat zero_le_floor of_int_floor_le order_trans of_int_of_nat_eq)
  with r Fin show ?thesis by (simp add: Let_def)
qed simp_all

lemma length_slice0_mono:
  "length xs \<le> length ys \<Longrightarrow> length (slice0 xs k) \<le> length (slice0 ys k)"
  by (cases k) (auto simp add: Let_def)

lemma length_filter_mono:
  "(\<And>x. P x \<Longrightarrow> Q x) \<Longrightarrow> length (filter P xs) \<le> length (filter Q xs)"
  by (induction xs) auto

lemma threshold_mono:
  "jle t1 t2 \<Longrightarrow> jgt x (jmul t2 (Fin 10)) \<Longrightarrow> jgt x (jmul t1 (Fin 10))"
  by (cases t1; cases t2; cases x) (auto split: if_splits)

lemma searchKnowledgeBase_cases:
  "(searchKnowledgeBase s es q = Some [] \<and> (trim q = [] \<or> searchTerms (normalizeQuery q) = []))
   \<or> (\<exists>scored. firstPass es (normalizeQuery q) = Some scored
         \<and> searchKnowledgeBase s es q
             = Some (rankResults (normalizeQuery q) (filteredResults s scored) es))"
proof (cases "trim q = [] \<or> searchTerms (normalizeQuery q) = []")
  case True
  then show ?thesis by (auto simp add: searchKnowledgeBase_def Let_def)
next
  case False
  then have "searchTerms (normalizeQuery q) \<noteq> []" by simp
  from firstPass_returns [OF this, of es]
  obtain scored where "firstPass es (normalizeQuery q) = Some scored" by blast
  with False show ?thesis
    by (simp add: searchKnowledgeBase_def Let_def filteredResults_def)
qed

text \<open>
  Claim C1.  For settings with \<open>maxResults = k\<close> and \<open>k >= 0\<close> the search returns a list
  of at most \<open>k\<close> results, for every query and every list of entries.
\<close>

theorem result_count_within_maxResults:
  "jle (Fin 0) (maxResults settings) \<Longrightarrow>
   \<exists>rs. searchKnowledgeBase settings allEntries query = Some rs
        \<and> jle (Fin (real (length rs))) (maxResults settings)"
proof -
  assume k: "jle (Fin 0) (maxResults settings)"
  from searchKnowledgeBase_cases [of settings allEntries query]
  show ?thesis
  proof
    assume "searchKnowledgeBase settings allEntries query = Some []
            \<and> (trim query = [] \<or> searchTerms (normalizeQuery query) = [])"
    with k show ?thesis by simp
  next
    assume "\<exists>scored. firstPass allEntries (normalizeQuery query) = Some scored
         \<and> searchKnowledgeBase settings allEntries query
             = Some (rankResults (normalizeQuery query) (filteredResults settings scored) allEntries)"
    then obtain scored where
      "searchKnowledgeBase settings allEntries query
         = Some (rankResults (normalizeQuery query) (filteredResults settings scored) allEntries)"
      by blast
    moreover have "jle (Fin (real (length (filteredResults settings scored)))) (maxResults settings)"
      unfolding filteredResults_def by (rule slice0_within_cap [OF k])
    ultimately show ?thesis by (simp add: length_rankResults)
  qed
qed

theorem result_count_witness:
  "\<exists>rs. searchKnowledgeBase \<lparr>relevanceThreshold = Fin 0, maxResults = Fin 1\<rparr>
          [\<lparr>entry_id = ''1'', moduleId = ''m'', title = ''Ballistic Weave'',
            content = ''ballistic weave armor mod'', entry_keywords = [''ballistic''],
            createdAt = None, updatedAt = None\<rparr>,
           \<lparr>entry_id = ''2'', moduleId = ''m'', title = ''Weave basics'',
            content = ''how to weave'', entry_keywords = [''weave''],
            createdAt = None, updatedAt = None\<rparr>]
          ''weave'' = Some rs
        \<and> jle (Fin (real (length rs))) (Fin 1)"
  using result_count_within_maxResults
    [of "\<lparr>relevanceThreshold = Fin 0, maxResults = Fin 1\<rparr>"]
  by simp

text \<open>
  Claim C7.  For a fixed query and fixed entries, settings that differ in the relevance
  threshold only give at most as many results at the greater threshold as at the
  smaller one.
\<close>

theorem raising_threshold_never_adds_results:
  "jle (relevanceThreshold settings) t2 \<Longrightarrow>
   \<exists>rs1 rs2. searchKnowledgeBase settings allEntries query = Some rs1
        \<and> searchKnowledgeBase (settings\<lparr>relevanceThreshold := t2\<rparr>) allEntries query = Some rs2
        \<and> length rs2 \<le> length rs1"
proof -
  assume le: "jle (relevanceThreshold settings) t2"
  let ?s2 = "settings\<lparr>relevanceThreshold := t2\<rparr>"
  show ?thesis
  proof (cases "trim query = [] \<or> searchTerms (normalizeQuery query) = []")
    case True
    then show ?thesis by (auto simp add: searchKnowledgeBase_def Let_def)
  next
    case False
    with searchKnowledgeBase_cases [of settings allEntries query]
      searchKnowledgeBase_cases [of ?s2 allEntries query]
    obtain scored where
      r1: "searchKnowledgeBase settings allEntries query
         = Some (rankResults (normalizeQuery query) (filteredResults settings scored) allEntries)"
      and r2: "searchKnowledgeBase ?s2 allEntries query
         = Some (rankResults (normalizeQuery query) (filteredResults ?s2 scored) allEntries)"
      by auto
    have "length (filter (\<lambda>item. jgt (score item) (jmul t2 (Fin 10))) scored)
          \<le> length (filter (\<lambda>item. jgt (score item) (jmul (relevanceThreshold settings) (Fin 10))) scored)"
      by (rule length_filter_mono) (rule threshold_mono [OF le])
    then have "length (filteredResults ?s2 scored) \<le> length (filteredResults settings scored)"
      unfolding filteredResults_def by (simp add: length_slice0_mono length_jsSort)
    with r1 r2 show ?thesis by (simp add: length_rankResults)
  qed
qed

theorem raising_threshold_witness:
  "\<exists>rs1 rs2.
     searchKnowledgeBase \<lparr>relevanceThreshold = Fin 0.5, maxResults = Fin 3\<rparr>
       [\<lparr>entry_id = ''1'', moduleId = ''m'', title = ''Ballistic Weave'',
         content = ''ballistic weave armor mod'', entry_keywords = [''ballistic''],
         createdAt = None, updatedAt = None\<rparr>]
       ''weave'' = Some rs1
     \<and> searchKnowledgeBase \<lparr>relevanceThreshold = Fin 0.9, maxResults = Fin 3\<rparr>
       [\<lparr>entry_id = ''1'', moduleId = ''m'', title = ''Ballistic Weave'',
         content = ''ballistic weave armor mod'', entry_keywords = [''ballistic''],
         createdAt = None, updatedAt = None\<rparr>]
       ''weave'' = Some rs2
     \<and> length rs2 \<le> length rs1"
  using raising_threshold_never_adds_results
    [of "\<lparr>relevanceThreshold = Fin 0.5, maxResults = Fin 3\<rparr>" "Fin 0.9"]
  by simp

section \<open>Scores are finite and bounded below\<close>

lemma finiteGe_iff: "finiteGe b x \<longleftrightarrow> (\<exists>r. x = Fin r \<and> b \<le> r)"
  by (cases x) (simp_all add: finiteGe_def)

lemma finiteGe_Fin [simp]: "finiteGe b (Fin r) \<longleftrightarrow> b \<le> r"
  by (simp add: finiteGe_def)

lemma finiteGe_weaken: "finiteGe b x \<Longrightarrow> a \<le> b \<Longrightarrow> finiteGe a x"
  by (auto simp add: finiteGe_iff)

lemma finiteGe_add: "finiteGe a x \<Longrightarrow> finiteGe b y \<Longrightarrow> finiteGe (a + b) (jadd x y)"
  by (auto simp add: finiteGe_iff)

lemma finiteGe_add0: "finiteGe a x \<Longrightarrow> finiteGe 0 y \<Longrightarrow> finiteGe a (jadd x y)"
  using finiteGe_add [of a x 0 y] by simp

lemma finiteGe_mul: "finiteGe 0 x \<Longrightarrow> finiteGe 0 y \<Longrightarrow> finiteGe 0 (jmul x y)"
  by (auto simp add: finiteGe_iff)

lemma finiteGe_foldl:
  assumes "\<And>s t. finiteGe b s \<Longrightarrow> t \<in> set ts \<Longrightarrow> finiteGe b (f s t)"
  shows "finiteGe b s0 \<Longrightarrow> finiteGe b (foldl f s0 ts)"
  using assms by (induction ts arbitrary: s0) simp_all

lemma levenshteinSimilarity_finite: "finiteGe 0 (levenshteinSimilarity a b)"
  using levenshteinSimilarity_range [of a b] by (auto simp add: finiteGe_iff)

lemma toLowerCase_Nil_iff [simp]: "toLowerCase t = [] \<longleftrightarrow> t = []"
  by (simp add: toLowerCase_def)

lemma calculateTF_finite: "t \<noteq> [] \<Longrightarrow> finiteGe 0 (calculateTF t doc)"
proof -
  assume "t \<noteq> []"
  moreover have "length (splitWs doc) \<noteq> 0"
    using splitWs_not_Nil [of doc] by simp
  ultimately show ?thesis
    by (simp add: calculateTF_def Let_def splitLength_def)
qed

lemma ln_half_bound: "1 / 2 \<le> (x :: real) \<Longrightarrow> 0 \<le> ln x + 1"
proof -
  assume x: "1 / 2 \<le> x"
  have "(2 :: real) \<le> exp 1"
    using exp_ge_add_one_self [of "1 :: real"] by simp
  then have "exp (- 1 :: real) \<le> 1 / 2"
    by (simp add: exp_minus field_simps)
  with x have "exp (- 1) \<le> x" by linarith
  moreover have "0 < x" using x by linarith
  ultimately have "- 1 \<le> ln x"
    by (simp add: ln_ge_iff)
  then show ?thesis by linarith
qed

lemma calculateIDF_finite: "docs \<noteq> [] \<Longrightarrow> finiteGe 0 (calculateIDF t docs)"
proof -
  assume ne: "docs \<noteq> []"
  define n where "n = length (filter (\<lambda>doc. includes_str (toLowerCase doc) (toLowerCase t)) docs)"
  define x where "x = real (length docs) / real (n + 1)"
  have n: "n \<le> length docs" unfolding n_def by (rule length_filter_le)
  have pos: "0 < length docs" using ne by simp
  have half: "1 / 2 \<le> x"
  proof -
    have "n + 1 \<le> 2 * length docs" using n pos by linarith
    then have "real (n + 1) \<le> real (2 * length docs)" by (rule of_nat_mono)
    then show ?thesis by (simp add: x_def field_simps)
  qed
  have d: "jdiv (Fin (real (length docs))) (Fin (real (n + 1))) = Fin x"
    by (simp add: x_def)
  have l: "jlog (Fin x) = Fin (ln x)" unfolding mathLog_def [symmetric]
    using half by simp
  have "calculateIDF t docs = Fin (ln x + 1)"
    unfolding calculateIDF_def Let_def n_def [symmetric] d l by simp
  with ln_half_bound [OF half] show ?thesis by simp
qed

lemma calculateTFIDF_finite:
  "t \<noteq> [] \<Longrightarrow> docs \<noteq> [] \<Longrightarrow> finiteGe 0 (calculateTFIDF t doc docs)"
  by (simp add: calculateTFIDF_def finiteGe_mul calculateTF_finite calculateIDF_finite)

lemma jaccardSimilarity_finite:
  "A \<noteq> [] \<or> B \<noteq> [] \<Longrightarrow> finiteGe 0 (jaccardSimilarity A B)"
proof -
  assume "A \<noteq> [] \<or> B \<noteq> []"
  then have "set A \<union> set B \<noteq> {}" by auto
  then have "card (set A \<union> set B) \<noteq> 0" by simp
  then show ?thesis by (auto simp add: jaccardSimilarity_card)
qed

lemma keywordScore_finite:
  assumes "finiteGe b s"
  shows "finiteGe b (keywordScore nq qts s kw)"
proof -
  let ?kl = "toLowerCase kw"
  let ?s1 = "if ?kl = nq then jadd s (Fin 5)
             else if includes_str ?kl nq then jadd s (Fin 3) else s"
  have s1: "finiteGe b ?s1"
    using assms by (simp add: finiteGe_add0)
  let ?s2 = "foldl (\<lambda>s term. if includes_str ?kl term then jadd s (Fin 2) else s) ?s1 qts"
  have s2: "finiteGe b ?s2"
    by (rule finiteGe_foldl [OF _ s1]) (simp add: finiteGe_add0)
  have "finiteGe b (foldl (\<lambda>s term.
                  let similarity = levenshteinSimilarity term ?kl
                  in if jgt similarity (Fin 0.8) then jadd s (jmul similarity (Fin 2)) else s)
           ?s2 qts)"
    by (rule finiteGe_foldl [OF _ s2])
       (simp add: Let_def finiteGe_add0 finiteGe_mul levenshteinSimilarity_finite)
  then show ?thesis by (simp add: keywordScore_def Let_def)
qed

lemma statScore_finite:
  assumes "finiteGe b s" and "qts \<noteq> []" and "\<forall>t\<in>set qts. t \<noteq> []" and "es \<noteq> []"
  shows "finiteGe b (statScore qts es e s)"
proof -
  let ?docs = "map documentOf es"
  have docs: "?docs \<noteq> []" using assms(4) by simp
  let ?s1 = "foldl (\<lambda>s term. jadd s (jmul (calculateTFIDF term (documentOf e) ?docs) (Fin 2))) s qts"
  have s1: "finiteGe b ?s1"
    by (rule finiteGe_foldl [OF _ assms(1)])
       (use assms(3) docs in \<open>simp add: finiteGe_add0 finiteGe_mul calculateTFIDF_finite\<close>)
  have "newSet qts \<noteq> []" using assms(2) by (simp add: newSet_Nil_iff)
  then have "finiteGe 0 (jaccardSimilarity (newSet qts) (newSet (queryTermsOf (documentOf e))))"
    by (simp add: jaccardSimilarity_finite)
  with s1 show ?thesis
    by (simp add: statScore_def Let_def finiteGe_add0 finiteGe_mul)
qed

section \<open>The exact phrase check\<close>



lemma findFrom_None_iff: "findFrom s t k = None \<longleftrightarrow> \<not> (\<exists>u v. s = u @ t @ v)"
proof (induction s arbitrary: k)
  case Nil
  then show ?case by simp
next
  case (Cons c cs)
  show ?case
  proof (cases "take (length t) (c # cs) = t")
    case True
    then have "c # cs = [] @ t @ drop (length t) (c # cs)"
      by (metis append_Nil append_take_drop_id)
    then have "\<exists>u v. c # cs = u @ t @ v" by blast
    with True show ?thesis by simp
  next
    case False
    have "(\<exists>u v. c # cs = u @ t @ v) \<longleftrightarrow> (\<exists>u v. cs = u @ t @ v)"
    proof
      assume "\<exists>u v. c # cs = u @ t @ v"
      then obtain u v where uv: "c # cs = u @ t @ v" by blast
      show "\<exists>u v. cs = u @ t @ v"
      proof (cases u)
        case Nil
        with uv have "take (length t) (c # cs) = t" by simp
        with False show ?thesis by simp
      next
        case (Cons d u')
        with uv show ?thesis by auto
      qed
    next
      assume "\<exists>u v. cs = u @ t @ v"
      then obtain u v where "cs = u @ t @ v" by blast
      then have "c # cs = (c # u) @ t @ v" by simp
      then show "\<exists>u v. c # cs = u @ t @ v" by blast
    qed
    with False Cons.IH [of "Suc k"] show ?thesis by simp
  qed
qed

text \<open>\<open>s.includes(t)\<close> holds exactly when \<open>t\<close> is a substring of \<open>s\<close>.\<close>

lemma includes_str_iff: "includes_str s t \<longleftrightarrow> (\<exists>u v. s = u @ t @ v)"
  using findFrom_None_iff [of s t 0] by (simp add: includes_str_def indexOf_def)

lemma exactMatch_Some:
  "indexOf s q 0 = Some p \<Longrightarrow>
   exactMatch field s q w a = (jadd (fst a) (Fin w), snd a @ [(field, [(p, p + length q)])])"
  by (simp add: exactMatch_def)

lemma exactMatch_None: "indexOf s q 0 = None \<Longrightarrow> exactMatch field s q w a = a"
  by (simp add: exactMatch_def)

lemma termMatches_sum:
  "termMatches field s w ts a = Some a' \<Longrightarrow> fst a = Fin x \<Longrightarrow>
   fst a' = Fin (x + w * real (length (filter (includes_str s) ts)))
   \<and> (\<exists>ms. snd a' = snd a @ ms \<and> (\<forall>m\<in>set ms. fst m = field))"
proof (induction ts arbitrary: a x)
  case Nil
  then show ?case by simp
next
  case (Cons t ts)
  show ?case
  proof (cases "includes_str s t")
    case False
    with Cons.prems have "termMatches field s w ts a = Some a'" by simp
    from Cons.IH [OF this Cons.prems(2)] False show ?thesis by simp
  next
    case True
    with Cons.prems obtain ps where ps: "allPositions s t 0 = Some ps"
      by (cases "allPositions s t 0") simp_all
    let ?a1 = "(jadd (fst a) (Fin w), if ps \<noteq> [] then snd a @ [(field, ps)] else snd a)"
    from Cons.prems True ps have rec: "termMatches field s w ts ?a1 = Some a'" by simp
    have "fst ?a1 = Fin (x + w)"
      using Cons.prems(2) by simp
    from Cons.IH [OF rec this]
    obtain ms where "fst a' = Fin (x + w + w * real (length (filter (includes_str s) ts)))"
      and "snd a' = snd ?a1 @ ms" and "\<forall>m\<in>set ms. fst m = field"
      by blast
    with True show ?thesis by (cases "ps = []") (auto simp add: algebra_simps)
  qed
qed

lemma exactMatch_sum:
  "fst a = Fin x \<Longrightarrow>
   fst (exactMatch field s q w a) = Fin (x + (if includes_str s q then w else 0))"
  by (cases "indexOf s q 0") (simp_all add: exactMatch_def includes_str_def)

lemma substringPass_acc:
  assumes "substringPass nq qts ets e = Some a6"
  defines "tt \<equiv> toLowerCase (title e)" and "ct \<equiv> toLowerCase (content e)"
  shows "fst a6 = Fin (substringScore nq qts ets e)"
    and "indexOf tt nq 0 = Some p \<Longrightarrow> \<exists>rest. snd a6 = (''title'', [(p, p + length nq)]) # rest"
    and "indexOf ct nq 0 = Some p' \<Longrightarrow>
         \<exists>rest. filter (\<lambda>m. fst m = ''content'') (snd a6)
                = (''content'', [(p', p' + length nq)]) # rest"
proof -
  let ?a1 = "exactMatch ''title'' tt nq 10 (Fin 0, [])"
  from assms(1) obtain a2 a3 a5 where
    a2: "termMatches ''title'' tt 3 qts ?a1 = Some a2" and
    a3: "termMatches ''title'' tt 1.5 ets a2 = Some a3" and
    a5: "termMatches ''content'' ct 1 qts (exactMatch ''content'' ct nq 5 a3) = Some a5" and
    a6: "termMatches ''content'' ct 0.5 ets a5 = Some a6"
    unfolding substringPass_def Let_def tt_def ct_def
    by (auto split: option.splits)
  let ?a4 = "exactMatch ''content'' ct nq 5 a3"
  define x1 :: real where "x1 = (if includes_str tt nq then 10 else 0)"
  define x2 where "x2 = x1 + 3 * real (length (filter (includes_str tt) qts))"
  define x3 where "x3 = x2 + 1.5 * real (length (filter (includes_str tt) ets))"
  define x4 :: real where "x4 = x3 + (if includes_str ct nq then 5 else 0)"
  define x5 where "x5 = x4 + 1 * real (length (filter (includes_str ct) qts))"
  define x6 where "x6 = x5 + 0.5 * real (length (filter (includes_str ct) ets))"
  have f1: "fst ?a1 = Fin x1"
    using exactMatch_sum [of "(Fin 0, [])" 0 "''title''" tt nq 10] by (simp add: x1_def)
  have t1: "\<forall>m\<in>set (snd ?a1). fst m = ''title''"
    by (cases "indexOf tt nq 0") (simp_all add: exactMatch_def)
  from termMatches_sum [OF a2 f1] obtain ms2 where
    f2: "fst a2 = Fin x2" and s2: "snd a2 = snd ?a1 @ ms2" and t2: "\<forall>m\<in>set ms2. fst m = ''title''"
    unfolding x2_def by auto
  from termMatches_sum [OF a3 f2] obtain ms3 where
    f3: "fst a3 = Fin x3" and s3: "snd a3 = snd a2 @ ms3" and t3: "\<forall>m\<in>set ms3. fst m = ''title''"
    unfolding x3_def by auto
  have f4: "fst ?a4 = Fin x4"
    using exactMatch_sum [OF f3, of "''content''" ct nq 5] by (simp add: x4_def)
  from termMatches_sum [OF a5 f4] obtain ms5 where
    f5: "fst a5 = Fin x5" and s5: "snd a5 = snd ?a4 @ ms5"
    unfolding x5_def by auto
  from termMatches_sum [OF a6 f5] obtain ms6 where
    f6: "fst a6 = Fin x6" and s6: "snd a6 = snd a5 @ ms6"
    unfolding x6_def by auto
  have "x6 = substringScore nq qts ets e"
    unfolding substringScore_def Let_def tt_def [symmetric] ct_def [symmetric]
      x6_def x5_def x4_def x3_def x2_def x1_def by simp
  with f6 show "fst a6 = Fin (substringScore nq qts ets e)" by simp
  show "\<exists>rest. snd a6 = (''title'', [(p, p + length nq)]) # rest"
    if "indexOf tt nq 0 = Some p"
    using that s2 s3 s5 s6
    by (cases "indexOf ct nq 0") (simp_all add: exactMatch_def)
  show "\<exists>rest. filter (\<lambda>m. fst m = ''content'') (snd a6)
                = (''content'', [(p', p' + length nq)]) # rest"
    if "indexOf ct nq 0 = Some p'"
  proof -
    have "filter (\<lambda>m. fst m = ''content'') (snd a3) = []"
      using t1 t2 t3 s2 s3 by (auto simp add: filter_empty_conv)
    with that s5 s6 show ?thesis by (simp add: exactMatch_def)
  qed
qed

lemma substringScore_nonneg: "0 \<le> substringScore nq qts ets e"
  by (simp add: substringScore_def Let_def)


lemma mapScored_nth:
  "mapScored f xs = Some ys \<Longrightarrow> i < length xs \<Longrightarrow> f (xs ! i) = Some (ys ! i)"
proof (induction xs arbitrary: ys i)
  case Nil
  then show ?case by simp
next
  case (Cons x xs)
  from Cons.prems(1) obtain y ys' where y: "f x = Some y" and ys': "mapScored f xs = Some ys'"
    and ys: "ys = y # ys'"
    by (auto split: option.splits)
  show ?case
  proof (cases i)
    case 0
    with y ys show ?thesis by simp
  next
    case (Suc j)
    with Cons.prems(2) have "j < length xs" by simp
    from Cons.IH [OF ys' this] Suc ys show ?thesis by simp
  qed
qed

lemma scoreEntry_result:
  assumes "scoreEntry nq qts ets es e = Some r"
  shows "\<exists>a6. substringPass nq qts ets e = Some a6 \<and> entry r = e \<and> matches r = Some (snd a6)
           \<and> score r = statScore qts es e (foldl (keywordScore nq qts) (fst a6) (entry_keywords e))"
  using assms by (auto simp add: scoreEntry_def Let_def split: option.splits)

lemma scoreEntry_score_finite:
  assumes "finiteGe b s" and "qts \<noteq> []" and "\<forall>t\<in>set qts. t \<noteq> []" and "es \<noteq> []"
  shows "finiteGe b (statScore qts es e (foldl (keywordScore nq qts) s kws))"
proof -
  have "finiteGe b (foldl (keywordScore nq qts) s kws)"
    by (rule finiteGe_foldl [OF _ assms(1)]) (rule keywordScore_finite)
  from statScore_finite [OF this assms(2,3,4)] show ?thesis .
qed




section \<open>The second ranking pass\<close>

lemma mset_sortInsert: "mset (sortInsert cmp x xs) = add_mset x (mset xs)"
  by (induction xs) simp_all

lemma mset_jsSort: "mset (jsSort cmp xs) = mset xs"
  by (induction xs) (simp_all add: mset_sortInsert)

lemma set_jsSort: "set (jsSort cmp xs) = set xs"
  using mset_jsSort [of cmp xs] by (metis set_mset_mset)



lemma byScoreDesc_finite:
  "score a = Fin x \<Longrightarrow> score b = Fin y \<Longrightarrow> jgt (byScoreDesc a b) (Fin 0) \<longleftrightarrow> x < y"
  by (simp add: byScoreDesc_def jsub_def)

lemma sortInsert_descending:
  assumes "\<forall>r\<in>set (x # xs). \<exists>v. score r = Fin v" and "descending xs"
  shows "descending (sortInsert byScoreDesc x xs)"
  using assms
proof (induction xs)
  case Nil
  then show ?case by (simp add: descending_def)
next
  case (Cons y ys)
  from Cons.prems(1) obtain vx vy where vx: "score x = Fin vx" and vy: "score y = Fin vy"
    by auto
  show ?case
  proof (cases "vx < vy")
    case True
    have d: "descending (sortInsert byScoreDesc x ys)"
      using Cons.IH Cons.prems by (simp add: descending_def)
    have "\<forall>r\<in>set (sortInsert byScoreDesc x ys). \<not> jgt (score r) (score y)"
    proof
      fix r assume "r \<in> set (sortInsert byScoreDesc x ys)"
      then have "r = x \<or> r \<in> set ys"
        using mset_sortInsert [of byScoreDesc x ys] by (metis insert_iff set_mset_add_mset_insert set_mset_mset)
      then show "\<not> jgt (score r) (score y)"
        using Cons.prems(2) True vx vy by (auto simp add: descending_def)
    qed
    with d True vx vy show ?thesis
      by (simp add: descending_def byScoreDesc_finite)
  next
    case False
    have "\<forall>r\<in>set (y # ys). \<not> jgt (score r) (score x)"
    proof
      fix r assume r: "r \<in> set (y # ys)"
      with Cons.prems(1) obtain vr where vr: "score r = Fin vr" by auto
      have "vr \<le> vy"
        using r Cons.prems(2) vr vy by (auto simp add: descending_def)
      with False vx vr show "\<not> jgt (score r) (score x)" by simp
    qed
    with False vx vy Cons.prems(2) show ?thesis
      by (simp add: descending_def byScoreDesc_finite)
  qed
qed

lemma jsSort_descending:
  "\<forall>r\<in>set xs. \<exists>v. score r = Fin v \<Longrightarrow> descending (jsSort byScoreDesc xs)"
proof (induction xs)
  case Nil
  then show ?case by (simp add: descending_def)
next
  case (Cons x xs)
  then have "descending (jsSort byScoreDesc xs)" by simp
  moreover have "\<forall>r\<in>set (x # jsSort byScoreDesc xs). \<exists>v. score r = Fin v"
    using Cons.prems by (simp add: set_jsSort)
  ultimately show ?case by (simp add: sortInsert_descending)
qed

lemma foldl_jadd_Fin:
  "foldl (\<lambda>sum e. jadd sum (Fin (g e))) (Fin a) es = Fin (a + sum_list (map g es))"
  by (induction es arbitrary: a) (simp_all add: add.assoc)

lemma sum_list_ge_length:
  fixes g :: "'a \<Rightarrow> real"
  assumes "\<And>e. 1 \<le> g e"
  shows "real (length es) \<le> sum_list (map g es)"
proof (induction es)
  case Nil
  then show ?case by simp
next
  case (Cons e es)
  from assms [of e] Cons.IH show ?case by simp
qed

lemma avgDocLength_finite:
  assumes "es \<noteq> []"
  shows "finiteGe 1
           (jdiv (foldl (\<lambda>sum e. jadd sum (Fin (real (length (splitWs (content e))))))
                    (Fin 0) es)
                 (Fin (real (length es))))"
proof -
  let ?g = "\<lambda>e. real (length (splitWs (content e)))"
  have "1 \<le> ?g e" for e
    using splitWs_not_Nil [of "content e"] by (cases "splitWs (content e)") simp_all
  from sum_list_ge_length [of ?g es, OF this]
  have "real (length es) \<le> sum_list (map ?g es)" .
  moreover have "0 < real (length es)" using assms by simp
  ultimately have "1 \<le> sum_list (map ?g es) / real (length es)"
    by (simp add: le_divide_eq_1)
  then show ?thesis
    using assms by (simp add: foldl_jadd_Fin)
qed

lemma bm25_term_finite:
  assumes "finiteGe 0 tf" and "finiteGe 0 idf" and "finiteGe 1 avg" and "0 < n"
  shows "finiteGe 0
           (jmul idf
              (jdiv (jmul tf (jadd (Fin 1.5) (Fin 1)))
                    (jadd tf (jmul (Fin 1.5) (jadd (jsub (Fin 1) (Fin 0.75))
                                   (jmul (Fin 0.75) (jdiv (Fin (real n)) avg)))))))"
proof -
  from assms obtain a i v where tf: "tf = Fin a" and a: "0 \<le> a" and idf: "idf = Fin i"
    and i: "0 \<le> i" and avg: "avg = Fin v" and v: "1 \<le> v"
    by (auto simp add: finiteGe_iff)
  define d where "d = a + 1.5 * (1 - 0.75 + 0.75 * (real n / v))"
  have "0 \<le> real n / v" using v by simp
  then have "0 < 1.5 * (1 - 0.75 + 0.75 * (real n / v))" by simp
  with a have den: "0 < d" unfolding d_def by (rule add_nonneg_pos)
  have dv: "jdiv (Fin (real n)) (Fin v) = Fin (real n / v)" using v by simp
  have "jadd (Fin a) (jmul (Fin 1.5) (jadd (jsub (Fin 1) (Fin 0.75))
                                   (jmul (Fin 0.75) (Fin (real n / v))))) = Fin d"
    by (simp add: jsub_def d_def)
  then have "jmul idf
              (jdiv (jmul tf (jadd (Fin 1.5) (Fin 1)))
                    (jadd tf (jmul (Fin 1.5) (jadd (jsub (Fin 1) (Fin 0.75))
                                   (jmul (Fin 0.75) (jdiv (Fin (real n)) avg))))))
        = Fin (i * (a * (1.5 + 1) / d))"
    unfolding tf idf avg dv using den by simp
  moreover have "0 \<le> i * (a * (1.5 + 1) / d)"
    using i a den by (intro mult_nonneg_nonneg divide_nonneg_pos) simp_all
  ultimately show ?thesis by simp
qed

lemma calculateBM25_finite:
  assumes "finiteGe 1 avg" and "docs \<noteq> []"
  shows "finiteGe 0 (calculateBM25 q doc avg docs (Fin 1.5) (Fin 0.75))"
proof -
  have n: "0 < length (splitWs doc)" using splitWs_not_Nil [of doc] by simp
  have step: "finiteGe 0
     (jadd s (jmul (calculateIDF t docs)
        (jdiv (jmul (calculateTF t doc) (jadd (Fin 1.5) (Fin 1)))
              (jadd (calculateTF t doc) (jmul (Fin 1.5) (jadd (jsub (Fin 1) (Fin 0.75))
                 (jmul (Fin 0.75) (jdiv (Fin (real (length (splitWs doc)))) avg))))))))"
    if "finiteGe 0 s" and "t \<in> set (queryTermsOf q)" for s t
  proof -
    from that(2) have "t \<noteq> []" using goodToken_queryTermsOf by (auto simp add: goodToken_def)
    from bm25_term_finite [OF calculateTF_finite [OF this] calculateIDF_finite [OF assms(2)] assms(1) n]
    show ?thesis using that(1) by (rule finiteGe_add0 [rotated])
  qed
  have "finiteGe 0 (Fin 0)" by simp
  from finiteGe_foldl [where b = 0 and ts = "queryTermsOf q", OF step this]
  show ?thesis
    by (simp add: calculateBM25_def Let_def)
qed

lemma rescored_finite:
  assumes "finiteGe b (score r)" and "es \<noteq> []" and "queryTermsOf q \<noteq> []"
  shows "finiteGe b (score (rescored q es r))"
proof -
  let ?docs = "map documentOf es"
  let ?doc = "documentOf (entry r)"
  have docs: "?docs \<noteq> []" using assms(2) by simp
  note avg = avgDocLength_finite [OF assms(2)]
  have s1: "finiteGe b (jadd (score r) (jmul (calculateBM25 q ?doc
              (jdiv (foldl (\<lambda>sum e. jadd sum (Fin (real (length (splitWs (content e))))))
                    (Fin 0) es) (Fin (real (length es)))) ?docs (Fin 1.5) (Fin 0.75)) (Fin 5)))"
    (is "finiteGe b ?s1")
    using assms(1) calculateBM25_finite [OF avg docs]
    by (simp add: finiteGe_add0 finiteGe_mul)
  have s2: "finiteGe b (foldl (\<lambda>s term. jadd s (jmul (calculateTFIDF term ?doc ?docs) (Fin 3)))
                 ?s1 (queryTermsOf q))"
    (is "finiteGe b ?s2")
  proof (rule finiteGe_foldl [OF _ s1])
    fix s t assume "finiteGe b s" and "t \<in> set (queryTermsOf q)"
    moreover from this have "t \<noteq> []" using goodToken_queryTermsOf by (auto simp add: goodToken_def)
    ultimately show "finiteGe b (jadd s (jmul (calculateTFIDF t ?doc ?docs) (Fin 3)))"
      using docs by (simp add: finiteGe_add0 finiteGe_mul calculateTFIDF_finite)
  qed
  have s3: "finiteGe b (jadd ?s2 (jmul (levenshteinSimilarity (toLowerCase q)
              (toLowerCase (title (entry r)))) (Fin 2)))"
    using s2 by (simp add: finiteGe_add0 finiteGe_mul levenshteinSimilarity_finite)
  have "newSet (queryTermsOf q) \<noteq> []" using assms(3) by (simp add: newSet_Nil_iff)
  then have "finiteGe 0 (jaccardSimilarity (newSet (queryTermsOf q))
               (newSet (map toLowerCase (entry_keywords (entry r)))))"
    by (simp add: jaccardSimilarity_finite)
  with s3 show ?thesis
    by (simp add: rescored_def Let_def finiteGe_add0 finiteGe_mul)
qed

lemma firstPass_scores_finite:
  assumes "firstPass es (normalizeQuery q) = Some scored"
    and "searchTerms (normalizeQuery q) \<noteq> []" and "r \<in> set scored"
  shows "finiteGe 0 (score r)"
proof -
  from firstPass_returns [OF assms(2), of es] assms(1)
  have len: "length scored = length es" by auto
  from assms(3) obtain i where i: "i < length scored" and r: "r = scored ! i"
    by (auto simp add: in_set_conv_nth)
  have ne: "es \<noteq> []" using i len by auto
  from assms(1) have "scoreEntry (normalizeQuery q) (searchTerms (normalizeQuery q))
        (expandedTermsOf (normalizeQuery q) es) es (es ! i) = Some (scored ! i)"
    unfolding firstPass_def using i len by (intro mapScored_nth) simp_all
  from scoreEntry_result [OF this]
  obtain a6 where a6: "substringPass (normalizeQuery q) (searchTerms (normalizeQuery q))
        (expandedTermsOf (normalizeQuery q) es) (es ! i) = Some a6"
    and sc: "score (scored ! i)
             = statScore (searchTerms (normalizeQuery q)) es (es ! i)
                 (foldl (keywordScore (normalizeQuery q) (searchTerms (normalizeQuery q)))
                    (fst a6) (entry_keywords (es ! i)))"
    by blast
  have "finiteGe 0 (fst a6)"
    using substringPass_acc(1) [OF a6] by (simp add: substringScore_nonneg)
  moreover have "\<forall>t\<in>set (searchTerms (normalizeQuery q)). t \<noteq> []"
    using goodToken_searchTerms by (auto simp add: goodToken_def)
  ultimately show ?thesis
    unfolding r sc using assms(2) ne by (intro scoreEntry_score_finite)
qed

lemma set_slice0: "set (slice0 xs k) \<subseteq> set xs"
  by (cases k) (auto simp add: Let_def dest: in_set_takeD)

lemma filteredResults_subset: "set (filteredResults s scored) \<subseteq> set scored"
proof -
  have "set (filteredResults s scored)
        \<subseteq> set (jsSort byScoreDesc
              (filter (\<lambda>item. jgt (score item) (jmul (relevanceThreshold s) (Fin 10))) scored))"
    unfolding filteredResults_def by (rule set_slice0)
  then show ?thesis by (auto simp add: set_jsSort)
qed

text \<open>
  Every score that the two sorts of the pipeline compare is a finite number, so the
  comparator is consistent and the order of the results is the one ECMAScript
  prescribes; the final list is in descending order of the scores.
\<close>

lemma searchKnowledgeBase_sorted:
  assumes "searchKnowledgeBase s es q = Some rs"
  shows "descending rs \<and> (\<forall>r\<in>set rs. finiteGe 0 (score r))"
proof -
  from searchKnowledgeBase_cases [of s es q]
  show ?thesis
  proof
    assume "searchKnowledgeBase s es q = Some []
            \<and> (trim q = [] \<or> searchTerms (normalizeQuery q) = [])"
    with assms show ?thesis by (simp add: descending_def)
  next
    assume "\<exists>scored. firstPass es (normalizeQuery q) = Some scored
         \<and> searchKnowledgeBase s es q
             = Some (rankResults (normalizeQuery q) (filteredResults s scored) es)"
    then obtain scored where fp: "firstPass es (normalizeQuery q) = Some scored"
      and rs: "rs = rankResults (normalizeQuery q) (filteredResults s scored) es"
      using assms by auto
    show ?thesis
    proof (cases "filteredResults s scored = [] \<or> searchTerms (normalizeQuery q) = []")
      case True
      then show ?thesis
      proof
        assume "filteredResults s scored = []"
        then show ?thesis by (simp add: rs rankResults_def descending_def)
      next
        assume st: "searchTerms (normalizeQuery q) = []"
        with assms have "rs = []"
          by (simp add: searchKnowledgeBase_def Let_def split: if_splits)
        then show ?thesis by (simp add: descending_def)
      qed
    next
      case False
      then have st: "searchTerms (normalizeQuery q) \<noteq> []" and fr: "filteredResults s scored \<noteq> []"
        by simp_all
      from fr filteredResults_subset [of s scored] have "scored \<noteq> []" by auto
      moreover from firstPass_returns [OF st, of es] fp have "length scored = length es" by auto
      ultimately have es: "es \<noteq> []" by auto
      have qt: "queryTermsOf (normalizeQuery q) \<noteq> []"
        using st by (simp add: queryTermsOf_normalizeQuery)
      have fin: "finiteGe 0 (score r)"
        if "r \<in> set (map (rescored (normalizeQuery q) es) (filteredResults s scored))" for r
      proof -
        from that obtain r0 where r0: "r0 \<in> set (filteredResults s scored)"
          and r: "r = rescored (normalizeQuery q) es r0" by auto
        from r0 filteredResults_subset have "r0 \<in> set scored" by blast
        from firstPass_scores_finite [OF fp st this]
        show ?thesis unfolding r by (rule rescored_finite [OF _ es qt])
      qed
      then have "\<forall>r\<in>set (map (rescored (normalizeQuery q) es) (filteredResults s scored)).
                   \<exists>v. score r = Fin v"
        by (auto simp add: finiteGe_iff)
      from jsSort_descending [OF this] fin fr show ?thesis
        by (simp add: rs rankResults_def set_jsSort)
    qed
  qed
qed







end
